theory Spec2Isabelle
  imports Complex_Main "HOL-Library.Sublist"
begin

section \<open>Go strings, runes and the library functions the search engine calls\<close>

text \<open>
  A Go \<^verbatim>\<open>string\<close> is a sequence of bytes and \<^verbatim>\<open>len\<close> counts bytes, so a Go string is
  a \<^typ>\<open>string\<close> here (a list of 8-bit characters). A \<^verbatim>\<open>rune\<close> is a Unicode code point;
  the conversion \<^verbatim>\<open>[]rune(s)\<close> decodes UTF-8 and yields U+FFFD for every byte that does
  not start a well-formed encoding.
\<close>

type_synonym rune = nat

definition RuneError :: rune where
  "RuneError = 0xFFFD"

definition byte :: "char \<Rightarrow> nat" where
  "byte c = of_char c"

text \<open>
  \<^verbatim>\<open>utf8.DecodeRuneInString\<close>: the rune at the front of the string and its width in bytes.
  The first byte fixes the size of the encoding and the accepted range of the second byte
  (the tables \<^verbatim>\<open>first\<close> and \<^verbatim>\<open>acceptRanges\<close> of package \<^verbatim>\<open>unicode/utf8\<close>); every
  later byte must be a continuation byte 0x80..0xBF.
\<close>

fun DecodeRuneInString :: "string \<Rightarrow> rune \<times> nat" where
  "DecodeRuneInString [] = (RuneError, 0)"
| "DecodeRuneInString (c0 # s) =
     (let b0 = byte c0 in
      if b0 < 0x80 then (b0, 1)
      else if b0 < 0xC2 \<or> 0xF4 < b0 then (RuneError, 1)
      else
        let sz = (if b0 < 0xE0 then 2 else if b0 < 0xF0 then 3 else (4::nat));
            lo = (if b0 = 0xE0 then 0xA0 else if b0 = 0xF0 then 0x90 else (0x80::nat));
            hi = (if b0 = 0xED then 0x9F else if b0 = 0xF4 then 0x8F else (0xBF::nat))
        in
        if Suc (length s) < sz then (RuneError, 1)
        else
          let b1 = byte (s ! 0) in
          if b1 < lo \<or> hi < b1 then (RuneError, 1)
          else if sz \<le> 2 then ((b0 mod 32) * 64 + b1 mod 64, 2)
          else
            let b2 = byte (s ! 1) in
            if b2 < 0x80 \<or> 0xBF < b2 then (RuneError, 1)
            else if sz \<le> 3 then ((b0 mod 16) * 4096 + (b1 mod 64) * 64 + b2 mod 64, 3)
            else
              let b3 = byte (s ! 2) in
              if b3 < 0x80 \<or> 0xBF < b3 then (RuneError, 1)
              else ((b0 mod 8) * 262144 + (b1 mod 64) * 4096 + (b2 mod 64) * 64 + b3 mod 64, 4))"

text \<open>\<^verbatim>\<open>[]rune(s)\<close>: decode rune after rune until the string is used up.\<close>

function runes :: "string \<Rightarrow> rune list" where
  "runes [] = []"
| "runes (c # s) =
     (case DecodeRuneInString (c # s) of
        (r, w) \<Rightarrow> r # runes (drop w (c # s)))"
  by pat_completeness auto
termination
proof (relation "measure length")
  show "wf (measure length)" by simp
next
  fix c :: char and s :: string and r :: rune and w :: nat
  assume "(r, w) = DecodeRuneInString (c # s)"
  then have "w = snd (DecodeRuneInString (c # s))"
    by (metis snd_conv)
  moreover have "snd (DecodeRuneInString (c # s)) \<in> {1, 2, 3, 4}"
    by (simp add: Let_def)
  ultimately have "0 < w" by auto
  then show "(drop w (c # s), c # s) \<in> measure length" by simp
qed

text \<open>\<^verbatim>\<open>utf8.AppendRune\<close>: the UTF-8 encoding of a rune; surrogates and values beyond
  U+10FFFF are written as U+FFFD.\<close>

definition EncodeRune :: "rune \<Rightarrow> string" where
  "EncodeRune r =
     (if r < 0x80 then [char_of r]
      else if r < 0x800 then [char_of (0xC0 + r div 64), char_of (0x80 + r mod 64)]
      else if 0x10FFFF < r \<or> (0xD800 \<le> r \<and> r \<le> 0xDFFF) then
        [char_of (0xEF::nat), char_of (0xBF::nat), char_of (0xBD::nat)]
      else if r < 0x10000 then
        [char_of (0xE0 + r div 4096), char_of (0x80 + (r div 64) mod 64),
         char_of (0x80 + r mod 64)]
      else
        [char_of (0xF0 + r div 262144), char_of (0x80 + (r div 4096) mod 64),
         char_of (0x80 + (r div 64) mod 64), char_of (0x80 + r mod 64)])"

text \<open>
  \<^verbatim>\<open>strings.ToLower\<close>. A string of ASCII bytes only takes the fast path, which maps
  \<^verbatim>\<open>'A'..'Z'\<close> to \<^verbatim>\<open>'a'..'z'\<close> byte by byte. Any other string goes through
  \<^verbatim>\<open>strings.Map(unicode.ToLower, s)\<close>: it is decoded rune by rune, each rune is mapped and
  encoded again (so an ill-formed byte comes out as the three bytes of U+FFFD).
  The rune mapping \<^verbatim>\<open>unicode.ToLower\<close> is a table of Go's standard library and not part of
  the repository: it is the parameter \<open>L\<close> of \<open>ToLower\<close> and of every function that
  normalizes a string, and the general theorems below hold for every \<open>L\<close>.
\<close>

definition asciiLower :: "char \<Rightarrow> char" where
  "asciiLower c = (if 0x41 \<le> byte c \<and> byte c \<le> 0x5A then char_of (byte c + 32) else c)"

definition isASCII :: "string \<Rightarrow> bool" where
  "isASCII s = list_all (\<lambda>c. byte c < 0x80) s"

definition ToLower :: "(rune \<Rightarrow> rune) \<Rightarrow> string \<Rightarrow> string" where
  "ToLower L s =
     (if isASCII s then map asciiLower s
      else concat (map (\<lambda>r. EncodeRune (L r)) (runes s)))"

text \<open>
  The entries of \<^verbatim>\<open>unicode.ToLower\<close> that the concrete examples of this theory use:
  the ASCII capitals and U+212A KELVIN SIGN, whose lower case is \<^verbatim>\<open>k\<close> (U+006B). Every
  other code point is left as it is here; only closed examples, whose strings contain no
  other capital letter, instantiate \<open>L\<close> with it.
\<close>

definition unicode_ToLower :: "rune \<Rightarrow> rune" where
  "unicode_ToLower r =
     (if 0x41 \<le> r \<and> r \<le> 0x5A then r + 32
      else if r = 0x212A then 0x6B
      else r)"

text \<open>Well-formed UTF-8 (\<^verbatim>\<open>utf8.ValidString\<close>): encoding the runes of the string gives the
  string back. No function of the engine tests it; it delimits statements below.\<close>

definition wellFormedUTF8 :: "string \<Rightarrow> bool" where
  "wellFormedUTF8 s \<longleftrightarrow> concat (map EncodeRune (runes s)) = s"

text \<open>\<^verbatim>\<open>strings.HasPrefix(s, prefix)\<close> is
  \<^verbatim>\<open>len(s) >= len(prefix) && s[:len(prefix)] == prefix\<close>.\<close>

definition HasPrefix :: "string \<Rightarrow> string \<Rightarrow> bool" where
  "HasPrefix s pre = (length pre \<le> length s \<and> take (length pre) s = pre)"

text \<open>\<^verbatim>\<open>strings.Index(s, substr)\<close>: the byte offset of the first occurrence of
  \<open>substr\<close> in \<open>s\<close>, or \<open>-1\<close>. \<open>IndexFrom i\<close> searches a suffix that starts at offset \<open>i\<close>.\<close>

fun IndexFrom :: "nat \<Rightarrow> string \<Rightarrow> string \<Rightarrow> int" where
  "IndexFrom i [] substr = (if substr = [] then int i else - 1)"
| "IndexFrom i (c # s) substr =
     (if HasPrefix (c # s) substr then int i else IndexFrom (Suc i) s substr)"

definition Index :: "string \<Rightarrow> string \<Rightarrow> int" where
  "Index s substr = IndexFrom 0 s substr"

section \<open>The data model\<close>

text \<open>\<^verbatim>\<open>database.SearchResult\<close>; time stamps are opaque to the engine and kept as
  integers.\<close>

record SearchResult =
  Key :: string
  CreatedAt :: int
  LastAccessed :: int
  AccessCount :: int
  Tags :: "string option"

record HighlightRange =
  Start :: int
  End :: int

text \<open>A \<^verbatim>\<open>float64\<close> score is modelled by the rational number it stands for. The scores of
  the exact, prefix and substring tiers are small integers, which \<^verbatim>\<open>float64\<close> computes
  exactly; the product of the fuzzy tier may be rounded in Go, and the concrete examples
  below use lengths for which every intermediate value is a dyadic rational computed
  without rounding. A \<^verbatim>\<open>nil\<close> slice is the empty list.\<close>

record MatchResult =
  Result :: SearchResult
  Score :: rat
  Highlights :: "HighlightRange list"

record Engine =
  caseSensitive :: bool
  maxResults :: int
  highlightMatches :: bool

text \<open>The run-time failures that the code can reach: a slice expression with a negative
  bound and an index expression with a negative index.\<close>

datatype panic = SliceBoundsOutOfRange | IndexOutOfRange

definition NewEngine :: Engine where
  "NewEngine = \<lparr>caseSensitive = False, maxResults = 100, highlightMatches = True\<rparr>"

definition SetCaseSensitive :: "Engine \<Rightarrow> bool \<Rightarrow> Engine" where
  "SetCaseSensitive e sensitive = e\<lparr>caseSensitive := sensitive\<rparr>"

definition SetMaxResults :: "Engine \<Rightarrow> int \<Rightarrow> Engine" where
  "SetMaxResults e m = e\<lparr>maxResults := m\<rparr>"

definition SetHighlightMatches :: "Engine \<Rightarrow> bool \<Rightarrow> Engine" where
  "SetHighlightMatches e highlight = e\<lparr>highlightMatches := highlight\<rparr>"

section \<open>The keys that the vault admits\<close>

text \<open>\<^verbatim>\<open>validateKey\<close> and \<^verbatim>\<open>isValidKeyChar\<close> of package \<^verbatim>\<open>database\<close>. \<^verbatim>\<open>CreateSecret\<close>
  stores a key only when \<^verbatim>\<open>validateKey\<close> returns \<^verbatim>\<open>nil\<close> (\<open>None\<close> here), and the
  candidates of a session are the keys that \<^verbatim>\<open>ListSecrets\<close> reads back. The string
  \<^verbatim>\<open>validPunct\<close> is given by the codes of its 28 characters.\<close>

datatype db_error = ErrInvalidKey

definition MaxKeyLength :: nat where
  "MaxKeyLength = 256"

definition validPunct :: string where
  "validPunct =
     map char_of
       [0x2E, 0x2D, 0x5F, 0x3A, 0x2F, 0x40, 0x23, 0x24, 0x25, 0x5E, 0x26, 0x2A, 0x2B, 0x3D,
        0x5B, 0x5D, 0x7B, 0x7D, 0x7C, 0x5C, 0x3B, 0x22, 0x27, 0x3C, 0x3E, 0x3F, 0x7E,
        0x60 :: nat]"

definition isValidKeyChar :: "rune \<Rightarrow> bool" where
  "isValidKeyChar r =
     (if (0x61 \<le> r \<and> r \<le> 0x7A) \<or> (0x41 \<le> r \<and> r \<le> 0x5A) \<or> (0x30 \<le> r \<and> r \<le> 0x39)
      then True
      else list_ex (\<lambda>valid. r = valid) (runes validPunct))"

definition validateKey :: "string \<Rightarrow> db_error option" where
  "validateKey key =
     (if length key = 0 then Some ErrInvalidKey
      else if MaxKeyLength < length key then Some ErrInvalidKey
      else if list_ex (\<lambda>r. \<not> isValidKeyChar r) (runes key) then Some ErrInvalidKey
      else None)"

section \<open>The scoring engine\<close>

definition normalizeString :: "(rune \<Rightarrow> rune) \<Rightarrow> Engine \<Rightarrow> string \<Rightarrow> string" where
  "normalizeString L e s = (if caseSensitive e then s else ToLower L s)"

text \<open>\<^verbatim>\<open>limitResults\<close>. The slice expression \<^verbatim>\<open>results[:e.maxResults]\<close> is reached when
  \<^verbatim>\<open>len(results) > e.maxResults\<close>; it panics when the bound is negative.\<close>

definition limitResults :: "Engine \<Rightarrow> MatchResult list \<Rightarrow> panic + MatchResult list" where
  "limitResults e rs =
     (if int (length rs) \<le> maxResults e then Inr rs
      else if maxResults e < 0 then Inl SliceBoundsOutOfRange
      else Inr (take (nat (maxResults e)) rs))"

text \<open>\<^verbatim>\<open>createHighlights\<close>: runs of consecutive positions become one range each. The loop
  carries the previous position, the open range and the ranges closed so far.\<close>

fun createHighlights_loop ::
  "int \<Rightarrow> int \<Rightarrow> int \<Rightarrow> int list \<Rightarrow> HighlightRange list \<Rightarrow> HighlightRange list" where
  "createHighlights_loop prev start en [] highlights =
     highlights @ [\<lparr>Start = start, End = en\<rparr>]"
| "createHighlights_loop prev start en (p # ps) highlights =
     (if p = prev + 1 then createHighlights_loop p start (p + 1) ps highlights
      else createHighlights_loop p p (p + 1) ps (highlights @ [\<lparr>Start = start, End = en\<rparr>]))"

definition createHighlights :: "int list \<Rightarrow> rune list \<Rightarrow> HighlightRange list" where
  "createHighlights positions original =
     (case positions of
        [] \<Rightarrow> []
      | p0 # ps \<Rightarrow> createHighlights_loop p0 p0 (p0 + 1) ps [])"

text \<open>The matching loop of \<^verbatim>\<open>fuzzyScore\<close>, with the loop variables of the source; it
  returns \<open>queryPos\<close>, \<open>totalScore\<close> and \<open>matchedPositions\<close> at loop exit.\<close>

function fuzzyScore_loop ::
  "rune list \<Rightarrow> rune list \<Rightarrow> nat \<Rightarrow> nat \<Rightarrow> nat \<Rightarrow> rat \<Rightarrow> int list \<Rightarrow> nat \<times> rat \<times> int list" where
  "fuzzyScore_loop queryRunes targetRunes queryPos targetPos consecutiveMatches totalScore
       matchedPositions =
     (if queryPos < length queryRunes \<and> targetPos < length targetRunes then
        if queryRunes ! queryPos = targetRunes ! targetPos then
          fuzzyScore_loop queryRunes targetRunes (queryPos + 1) (targetPos + 1)
            (consecutiveMatches + 1)
            (totalScore + (2 + of_nat (consecutiveMatches + 1) * (1 / 2)))
            (matchedPositions @ [int targetPos])
        else
          fuzzyScore_loop queryRunes targetRunes queryPos (targetPos + 1) 0 totalScore
            matchedPositions
      else (queryPos, totalScore, matchedPositions))"
  by pat_completeness auto
termination
  by (relation "measure (\<lambda>(q, t, qp, tp, rest). length t - tp)") auto

declare fuzzyScore_loop.simps [simp del]

definition fuzzyScore :: "string \<Rightarrow> string \<Rightarrow> string \<Rightarrow> rat \<times> HighlightRange list" where
  "fuzzyScore query target originalTarget =
     (if length query = 0 \<or> length target = 0 then (0, [])
      else
        let queryRunes = runes query;
            targetRunes = runes target;
            originalRunes = runes originalTarget
        in
        case fuzzyScore_loop queryRunes targetRunes 0 0 0 0 [] of
          (queryPos, totalScore, matchedPositions) \<Rightarrow>
            if queryPos < length queryRunes then (0, [])
            else
              let matchRatio = of_nat (length matchedPositions) / of_nat (length queryRunes);
                  lengthRatio = of_nat (length queryRunes) / of_nat (length targetRunes);
                  finalScore = totalScore * matchRatio * lengthRatio * 20;
                  finalScore' = (if finalScore < 10 then 10 else finalScore);
                  highlights =
                    (if 0 < length matchedPositions
                     then createHighlights matchedPositions originalRunes else [])
              in (finalScore', highlights))"

definition scoreMatch ::
  "(rune \<Rightarrow> rune) \<Rightarrow> Engine \<Rightarrow> string \<Rightarrow> string \<Rightarrow> rat \<times> HighlightRange list" where
  "scoreMatch L e query target =
     (let queryNorm = normalizeString L e query;
          targetNorm = normalizeString L e target
      in
      if queryNorm = targetNorm then (100, [\<lparr>Start = 0, End = int (length target)\<rparr>])
      else if HasPrefix targetNorm queryNorm then
        (90, [\<lparr>Start = 0, End = int (length query)\<rparr>])
      else
        let idx = Index targetNorm queryNorm in
        if 0 \<le> idx then
          (let score = 80 - of_int idx * 2 in if score < 50 then 50 else score,
           [\<lparr>Start = idx, End = idx + int (length query)\<rparr>])
        else
          case fuzzyScore queryNorm targetNorm target of
            (score, highlights) \<Rightarrow> if 0 < score then (score, highlights) else (0, []))"

text \<open>The scoring loop of \<^verbatim>\<open>Search\<close>: candidates with a positive score, in input order.\<close>

fun Search_matches ::
  "(rune \<Rightarrow> rune) \<Rightarrow> Engine \<Rightarrow> string \<Rightarrow> SearchResult list \<Rightarrow> MatchResult list" where
  "Search_matches L e query [] = []"
| "Search_matches L e query (secret # secrets) =
     (case scoreMatch L e query (Key secret) of
        (score, highlights) \<Rightarrow>
          if 0 < score then
            \<lparr>Result = secret, Score = score,
             Highlights = (if highlightMatches e then highlights else [])\<rparr>
            # Search_matches L e query secrets
          else Search_matches L e query secrets)"

text \<open>The comparison function handed to \<^verbatim>\<open>sort.Slice\<close>. \<^verbatim>\<open>iKey < jKey\<close> on Go strings is
  the lexicographic order on bytes.\<close>

fun string_less :: "string \<Rightarrow> string \<Rightarrow> bool" where
  "string_less [] [] = False"
| "string_less [] (d # t) = True"
| "string_less (c # s) [] = False"
| "string_less (c # s) (d # t) =
     (if byte c < byte d then True else if byte d < byte c then False else string_less s t)"

definition Search_less ::
  "(rune \<Rightarrow> rune) \<Rightarrow> Engine \<Rightarrow> string \<Rightarrow> MatchResult \<Rightarrow> MatchResult \<Rightarrow> bool" where
  "Search_less L e query mi mj =
     (if Score mi \<noteq> Score mj then Score mj < Score mi
      else
        let iKey = normalizeString L e (Key (Result mi));
            jKey = normalizeString L e (Key (Result mj));
            queryNorm = normalizeString L e query;
            iStartsWith = HasPrefix iKey queryNorm;
            jStartsWith = HasPrefix jKey queryNorm
        in if iStartsWith \<noteq> jStartsWith then iStartsWith else string_less iKey jKey)"

text \<open>
  \<^verbatim>\<open>sort.Slice\<close> sorts in place by the given comparison and does not promise stability.
  It is modelled by the insertion sort that Go runs on short slices
  (\<^verbatim>\<open>insertionSortLessFunc\<close>): each element in turn moves left as long as it is less than
  its left neighbour. On longer slices Go may order elements that the comparison does not
  tell apart differently; no statement below depends on the order of such elements.
\<close>

definition sort_insert :: "('a \<Rightarrow> 'a \<Rightarrow> bool) \<Rightarrow> 'a \<Rightarrow> 'a list \<Rightarrow> 'a list" where
  "sort_insert lt x done_part =
     (let k = length (takeWhile (\<lambda>y. lt x y) (rev done_part));
          n = length done_part
      in take (n - k) done_part @ x # drop (n - k) done_part)"

definition sort_Slice :: "('a \<Rightarrow> 'a \<Rightarrow> bool) \<Rightarrow> 'a list \<Rightarrow> 'a list" where
  "sort_Slice lt xs = foldl (\<lambda>done_part x. sort_insert lt x done_part) [] xs"

definition Search ::
  "(rune \<Rightarrow> rune) \<Rightarrow> Engine \<Rightarrow> string \<Rightarrow> SearchResult list \<Rightarrow> panic + MatchResult list" where
  "Search L e query secrets =
     (if length query = 0 then
        limitResults e (map (\<lambda>secret. \<lparr>Result = secret, Score = 0, Highlights = []\<rparr>) secrets)
      else
        limitResults e (sort_Slice (Search_less L e query) (Search_matches L e query secrets)))"

text \<open>\<^verbatim>\<open>SearchInteractive\<close> sets the cap, searches and sets the cap back. The engine is
  reached through a pointer, so the engine that the call leaves behind is part of the
  result in either case: after a return it comes with the results, and after a panic of
  \<^verbatim>\<open>Search\<close>, which leaves the function before the cap is set back (there is no
  \<^verbatim>\<open>defer\<close>), it comes with the panic.\<close>

definition SearchInteractive ::
  "(rune \<Rightarrow> rune) \<Rightarrow> Engine \<Rightarrow> string \<Rightarrow> SearchResult list \<Rightarrow> int
     \<Rightarrow> (panic \<times> Engine) + (MatchResult list \<times> Engine)" where
  "SearchInteractive L e query secrets maxRes =
     (let oldMax = maxResults e;
          e1 = SetMaxResults e maxRes
      in case Search L e1 query secrets of
           Inl p \<Rightarrow> Inl (p, e1)
         | Inr results \<Rightarrow> Inr (results, SetMaxResults e1 oldMax))"

section \<open>The interactive session\<close>

definition MaxDisplayResults :: int where
  "MaxDisplayResults = 5"

text \<open>\<^verbatim>\<open>InteractiveSearch\<close> without its styles, which only the terminal rendering reads.
  The engine is held by pointer and owned by the session alone, so it is a field.\<close>

record InteractiveSearch =
  engine :: Engine
  secrets :: "SearchResult list"
  results :: "MatchResult list"
  query :: string
  selected :: int
  active :: bool

definition NewInteractiveSearch :: "SearchResult list \<Rightarrow> InteractiveSearch" where
  "NewInteractiveSearch secs =
     \<lparr>engine = SetMaxResults NewEngine (MaxDisplayResults * 2),
      secrets = secs, results = [], query = [], selected = 0, active = True\<rparr>"

definition updateResults ::
  "(rune \<Rightarrow> rune) \<Rightarrow> InteractiveSearch \<Rightarrow> panic + InteractiveSearch" where
  "updateResults L st =
     (case Search L (engine st) (query st) (secrets st) of
        Inl p \<Rightarrow> Inl p
      | Inr allResults \<Rightarrow>
          let displayCount =
                (if int (length allResults) < MaxDisplayResults then int (length allResults)
                 else MaxDisplayResults);
              st1 = st\<lparr>results := take (nat displayCount) allResults\<rparr>;
              st2 = (if int (length (results st1)) \<le> selected st1
                     then st1\<lparr>selected := int (length (results st1)) - 1\<rparr> else st1);
              st3 = (if selected st2 < 0 \<and> 0 < length (results st2)
                     then st2\<lparr>selected := 0\<rparr> else st2)
          in Inr st3)"

text \<open>\<^verbatim>\<open>AddChar(ch byte)\<close> appends \<^verbatim>\<open>string(ch)\<close>, the UTF-8 encoding of the code point
  \<open>ch\<close>: one byte for an ASCII character.\<close>

definition AddChar ::
  "(rune \<Rightarrow> rune) \<Rightarrow> InteractiveSearch \<Rightarrow> char \<Rightarrow> panic + InteractiveSearch" where
  "AddChar L st ch =
     (case updateResults L (st\<lparr>query := query st @ EncodeRune (byte ch)\<rparr>) of
        Inl p \<Rightarrow> Inl p
      | Inr st' \<Rightarrow> Inr (st'\<lparr>selected := 0\<rparr>))"

definition RemoveChar ::
  "(rune \<Rightarrow> rune) \<Rightarrow> InteractiveSearch \<Rightarrow> panic + InteractiveSearch" where
  "RemoveChar L st =
     (if 0 < length (query st) then
        case updateResults L (st\<lparr>query := take (length (query st) - 1) (query st)\<rparr>) of
          Inl p \<Rightarrow> Inl p
        | Inr st' \<Rightarrow> Inr (st'\<lparr>selected := 0\<rparr>)
      else Inr st)"

text \<open>\<^verbatim>\<open>MoveSelection\<close> adds an arbitrary \<^verbatim>\<open>int\<close> to the cursor; the sum wraps around as
  a 64-bit two's-complement integer (\<open>int64_wrap\<close>). Every other integer of the model is a
  length or an offset into a string and stays far from the machine bounds.\<close>

definition int64_wrap :: "int \<Rightarrow> int" where
  "int64_wrap x = (x + 2 ^ 63) mod 2 ^ 64 - 2 ^ 63"

definition MoveSelection :: "InteractiveSearch \<Rightarrow> int \<Rightarrow> InteractiveSearch" where
  "MoveSelection st direction =
     (if length (results st) = 0 then st
      else
        let sel = int64_wrap (selected st + direction) in
        if sel < 0 then st\<lparr>selected := int (length (results st)) - 1\<rparr>
        else if int (length (results st)) \<le> sel then st\<lparr>selected := 0\<rparr>
        else st\<lparr>selected := sel\<rparr>)"

definition GetSelectedResult :: "InteractiveSearch \<Rightarrow> MatchResult option" where
  "GetSelectedResult st =
     (if length (results st) = 0 \<or> selected st < 0 \<or> int (length (results st)) \<le> selected st
      then None else Some (results st ! nat (selected st)))"

text \<open>The block of \<^verbatim>\<open>Render\<close> that computes the "more results" indicator: the value of
  \<^verbatim>\<open>totalMatches\<close>, and the count printed in \<^verbatim>\<open>... and %d more results\<close> (\<open>None\<close> when
  no indicator is printed). The rest of \<^verbatim>\<open>Render\<close> is terminal styling.\<close>

definition Render_totalMatches ::
  "(rune \<Rightarrow> rune) \<Rightarrow> InteractiveSearch \<Rightarrow> panic + int" where
  "Render_totalMatches L st =
     (case Search L (engine st) (query st) (secrets st) of
        Inl p \<Rightarrow> Inl p
      | Inr found \<Rightarrow> Inr (int (length found)))"

definition Render_moreCount ::
  "(rune \<Rightarrow> rune) \<Rightarrow> InteractiveSearch \<Rightarrow> panic + int option" where
  "Render_moreCount L st =
     (if length (results st) = 0 then Inr None
      else
        case Render_totalMatches L st of
          Inl p \<Rightarrow> Inl p
        | Inr totalMatches \<Rightarrow>
            if int (length (results st)) < totalMatches
            then Inr (Some (totalMatches - int (length (results st))))
            else Inr None)"

text \<open>The operations that drive a session, and a run of them from a given state.\<close>

datatype session_op = OpAddChar char | OpRemoveChar | OpMoveSelection int

fun apply_op ::
  "(rune \<Rightarrow> rune) \<Rightarrow> InteractiveSearch \<Rightarrow> session_op \<Rightarrow> panic + InteractiveSearch" where
  "apply_op L st (OpAddChar ch) = AddChar L st ch"
| "apply_op L st OpRemoveChar = RemoveChar L st"
| "apply_op L st (OpMoveSelection direction) = Inr (MoveSelection st direction)"

fun run_ops ::
  "(rune \<Rightarrow> rune) \<Rightarrow> InteractiveSearch \<Rightarrow> session_op list \<Rightarrow> panic + InteractiveSearch" where
  "run_ops L st [] = Inr st"
| "run_ops L st (x # xs) =
     (case apply_op L st x of Inl p \<Rightarrow> Inl p | Inr st' \<Rightarrow> run_ops L st' xs)"

subsection \<open>Rendering\<close>

text \<open>A slice expression \<^verbatim>\<open>xs[lo:hi]\<close>. Go panics unless \<open>0 \<le> lo \<le> hi \<le> cap(xs)\<close>; the
  capacity of the slice that \<^verbatim>\<open>[]rune(text)\<close> allocates is at least its length and
  otherwise left to the run-time system, so the model takes the length as the bound: it
  panics wherever Go does.\<close>

definition go_slice :: "'a list \<Rightarrow> int \<Rightarrow> int \<Rightarrow> panic + 'a list" where
  "go_slice xs lo hi =
     (if 0 \<le> lo \<and> lo \<le> hi \<and> hi \<le> int (length xs)
      then Inr (take (nat (hi - lo)) (drop (nat lo) xs))
      else Inl SliceBoundsOutOfRange)"

text \<open>\<^verbatim>\<open>string(runes)\<close>: the UTF-8 encoding of a rune slice.\<close>

definition string_of_runes :: "rune list \<Rightarrow> string" where
  "string_of_runes rs = concat (map EncodeRune rs)"

text \<open>The text that \<^verbatim>\<open>applyHighlights\<close> builds, piece by piece: a piece is either written
  as it is or through the highlight style (the styles themselves belong to the terminal
  library).\<close>

datatype segment = Plain string | Highlighted string

fun applyHighlights_loop ::
  "rune list \<Rightarrow> int \<Rightarrow> HighlightRange list \<Rightarrow> segment list \<Rightarrow> panic + (int \<times> segment list)" where
  "applyHighlights_loop rs pos [] out = Inr (pos, out)"
| "applyHighlights_loop rs pos (highlight # rest) out =
     (case (if pos < Start highlight then
              case go_slice rs pos (Start highlight) of
                Inl p \<Rightarrow> Inl p
              | Inr before \<Rightarrow> Inr (out @ [Plain (string_of_runes before)])
            else Inr out) of
        Inl p \<Rightarrow> Inl p
      | Inr out1 \<Rightarrow>
          if End highlight \<le> int (length rs) then
            case go_slice rs (Start highlight) (End highlight) of
              Inl p \<Rightarrow> Inl p
            | Inr highlightedText \<Rightarrow>
                applyHighlights_loop rs (End highlight) rest
                  (out1 @ [Highlighted (string_of_runes highlightedText)])
          else applyHighlights_loop rs pos rest out1)"

definition applyHighlights :: "string \<Rightarrow> HighlightRange list \<Rightarrow> panic + segment list" where
  "applyHighlights label_text highlights =
     (if length highlights = 0 then Inr [Plain label_text]
      else
        let rs = runes label_text in
        case applyHighlights_loop rs 0 highlights [] of
          Inl p \<Rightarrow> Inl p
        | Inr (pos, out) \<Rightarrow>
            if pos < int (length rs) then
              case go_slice rs pos (int (length rs)) of
                Inl p \<Rightarrow> Inl p
              | Inr remaining \<Rightarrow> Inr (out @ [Plain (string_of_runes remaining)])
            else Inr out)"

text \<open>\<^verbatim>\<open>renderResult\<close>: the key with its highlights, the access count of the metadata and
  whether the line is the selected one.\<close>

record rendered_line =
  line_key :: "segment list"
  line_accessCount :: int
  line_selected :: bool

definition renderResult :: "MatchResult \<Rightarrow> bool \<Rightarrow> panic + rendered_line" where
  "renderResult result sel =
     (case (if 0 < length (Highlights result)
            then applyHighlights (Key (Result result)) (Highlights result)
            else Inr [Plain (Key (Result result))]) of
        Inl p \<Rightarrow> Inl p
      | Inr key \<Rightarrow>
          Inr \<lparr>line_key = key, line_accessCount = AccessCount (Result result),
               line_selected = sel\<rparr>)"

text \<open>\<^verbatim>\<open>Render\<close>: the query line, then either one of the two messages for an empty result
  list, or the result lines (the loop over \<^verbatim>\<open>is.results\<close>, with the index \<open>i\<close>) and the
  "more results" count computed above.\<close>

fun Render_lines ::
  "InteractiveSearch \<Rightarrow> int \<Rightarrow> MatchResult list \<Rightarrow> panic + rendered_line list" where
  "Render_lines st i [] = Inr []"
| "Render_lines st i (result # rest) =
     (case renderResult result (i = selected st) of
        Inl p \<Rightarrow> Inl p
      | Inr line \<Rightarrow>
          (case Render_lines st (i + 1) rest of
             Inl p \<Rightarrow> Inl p
           | Inr lines \<Rightarrow> Inr (line # lines)))"

datatype screen_body =
  NoMatchesFound | StartTyping | ResultLines "rendered_line list" "int option"

definition Render ::
  "(rune \<Rightarrow> rune) \<Rightarrow> InteractiveSearch \<Rightarrow> panic + (string \<times> screen_body)" where
  "Render L st =
     (if length (results st) = 0 then
        Inr (query st, if 0 < length (query st) then NoMatchesFound else StartTyping)
      else
        case Render_lines st 0 (results st) of
          Inl p \<Rightarrow> Inl p
        | Inr lines \<Rightarrow>
            (case Render_moreCount L st of
               Inl p \<Rightarrow> Inl p
             | Inr moreCount \<Rightarrow> Inr (query st, ResultLines lines moreCount)))"

subsection \<open>The Bubble Tea model\<close>

text \<open>\<^verbatim>\<open>Model\<close>; its fields carry the prefix \<open>m_\<close> because \<open>selected\<close> is already a field
  of the session. \<open>m_selected\<close> is the pointer \<^verbatim>\<open>*MatchResult\<close>, \<open>None\<close> for \<^verbatim>\<open>nil\<close>.\<close>

record Model =
  m_search :: InteractiveSearch
  m_quitting :: bool
  m_selected :: "MatchResult option"

definition NewModel :: "SearchResult list \<Rightarrow> Model" where
  "NewModel secs =
     \<lparr>m_search = NewInteractiveSearch secs, m_quitting = False, m_selected = None\<rparr>"

text \<open>A message of the terminal library: a key press with the text of
  \<^verbatim>\<open>msg.String()\<close>, or a message of any other type.\<close>

datatype Msg = KeyMsg string | OtherMsg

text \<open>\<^verbatim>\<open>Update\<close> returns the new model and whether the command is \<^verbatim>\<open>tea.Quit\<close>.\<close>

fun Update :: "(rune \<Rightarrow> rune) \<Rightarrow> Model \<Rightarrow> Msg \<Rightarrow> panic + (Model \<times> bool)" where
  "Update L m OtherMsg = Inr (m, False)"
| "Update L m (KeyMsg key) =
     (let st = m_search m in
      if key = ''ctrl+c'' \<or> key = ''esc'' then Inr (m\<lparr>m_quitting := True\<rparr>, True)
      else if key = ''enter'' then
        (if 0 < length (results st) \<and> selected st < int (length (results st)) then
           (if selected st < 0 then Inl IndexOutOfRange
            else Inr (m\<lparr>m_selected := Some (results st ! nat (selected st))\<rparr>, True))
         else Inr (m, True))
      else if key = ''up'' \<or> key = ''ctrl+p'' then
        Inr (m\<lparr>m_search := MoveSelection st (- 1)\<rparr>, False)
      else if key = ''down'' \<or> key = ''ctrl+n'' then
        Inr (m\<lparr>m_search := MoveSelection st 1\<rparr>, False)
      else if key = ''backspace'' then
        (case RemoveChar L st of
           Inl p \<Rightarrow> Inl p
         | Inr st' \<Rightarrow> Inr (m\<lparr>m_search := st'\<rparr>, False))
      else if length key = 1 \<and> 32 \<le> byte (key ! 0) then
        (case AddChar L st (key ! 0) of
           Inl p \<Rightarrow> Inl p
         | Inr st' \<Rightarrow> Inr (m\<lparr>m_search := st'\<rparr>, False))
      else Inr (m, False))"

text \<open>\<^verbatim>\<open>View\<close>: nothing (\<open>None\<close>, the empty string) once the model is quitting, otherwise
  what \<^verbatim>\<open>Render\<close> draws.\<close>

definition View ::
  "(rune \<Rightarrow> rune) \<Rightarrow> Model \<Rightarrow> panic + (string \<times> screen_body) option" where
  "View L m =
     (if m_quitting m then Inr None
      else case Render L (m_search m) of Inl p \<Rightarrow> Inl p | Inr screen \<Rightarrow> Inr (Some screen))"

text \<open>
  \<^verbatim>\<open>program.Run\<close> belongs to the terminal library. It is modelled as its event loop: it
  draws \<^verbatim>\<open>View\<close> of the initial model, then hands the incoming messages to \<^verbatim>\<open>Update\<close> in
  order, draws \<^verbatim>\<open>View\<close> of the model after every \<^verbatim>\<open>Update\<close>, and ends with the model at
  the first \<^verbatim>\<open>tea.Quit\<close>; an event \<open>Failure\<close> stands for a failure of the terminal, on
  which \<^verbatim>\<open>program.Run\<close> returns an error. A panic of \<^verbatim>\<open>Update\<close> or \<^verbatim>\<open>View\<close> is a panic of
  the run.
  The result is \<open>Inr (Some (Inr m))\<close> when the program ended with model \<open>m\<close>,
  \<open>Inr (Some (Inl ()))\<close> when it ended with an error, \<open>Inr None\<close> when the events are
  used up and the program is still waiting for input, and \<open>Inl p\<close> on a panic.
\<close>

datatype event = Message Msg | Failure

fun program_loop ::
  "(rune \<Rightarrow> rune) \<Rightarrow> Model \<Rightarrow> event list \<Rightarrow> panic + (unit + Model) option" where
  "program_loop L m [] = Inr None"
| "program_loop L m (Failure # evs) = Inr (Some (Inl ()))"
| "program_loop L m (Message msg # evs) =
     (case Update L m msg of
        Inl p \<Rightarrow> Inl p
      | Inr (m', quit) \<Rightarrow>
          (case View L m' of
             Inl p \<Rightarrow> Inl p
           | Inr screen \<Rightarrow> if quit then Inr (Some (Inr m')) else program_loop L m' evs))"

definition program_Run ::
  "(rune \<Rightarrow> rune) \<Rightarrow> Model \<Rightarrow> event list \<Rightarrow> panic + (unit + Model) option" where
  "program_Run L m evs =
     (case View L m of Inl p \<Rightarrow> Inl p | Inr screen \<Rightarrow> program_loop L m evs)"

text \<open>\<^verbatim>\<open>RunInteractiveSearch\<close> returns a pair \<^verbatim>\<open>(string, error)\<close>; the second component
  here says whether the error is non-nil.\<close>

definition RunInteractiveSearch ::
  "(rune \<Rightarrow> rune) \<Rightarrow> SearchResult list \<Rightarrow> event list \<Rightarrow> panic + (string \<times> bool) option" where
  "RunInteractiveSearch L secs evs =
     (case program_Run L (NewModel secs) evs of
        Inl p \<Rightarrow> Inl p
      | Inr None \<Rightarrow> Inr None
      | Inr (Some (Inl u)) \<Rightarrow> Inr (Some ([], True))
      | Inr (Some (Inr final)) \<Rightarrow>
          (case m_selected final of
             Some sel \<Rightarrow> Inr (Some (Key (Result sel), False))
           | None \<Rightarrow> Inr (Some ([], False))))"

definition GetSelectedKey :: "Model \<Rightarrow> string" where
  "GetSelectedKey m = (case m_selected m of Some sel \<Rightarrow> Key (Result sel) | None \<Rightarrow> [])"

text \<open>The invariant of the session state that the proofs below carry along.\<close>

definition session_inv :: "InteractiveSearch \<Rightarrow> bool" where
  "session_inv st \<longleftrightarrow>
     0 \<le> maxResults (engine st) \<and>
     int (length (results st)) \<le> MaxDisplayResults \<and>
     (results st \<noteq> [] \<longrightarrow> 0 \<le> selected st \<and> selected st < int (length (results st)))"

text \<open>What the rendering of a result needs of its highlights: no range starts below 0,
  after its own end or beyond the runes of the label.\<close>

definition renderable :: "string \<Rightarrow> HighlightRange list \<Rightarrow> bool" where
  "renderable label hs \<longleftrightarrow>
     (\<forall>h \<in> set hs. 0 \<le> Start h \<and> Start h \<le> End h \<and> Start h \<le> int (length (runes label)))"

definition render_inv :: "InteractiveSearch \<Rightarrow> bool" where
  "render_inv st \<longleftrightarrow>
     (\<forall>s \<in> set (secrets st). validateKey (Key s) = None) \<and>
     (\<forall>r \<in> set (results st).
        Result r \<in> set (secrets st) \<and> renderable (Key (Result r)) (Highlights r))"

definition model_inv :: "Model \<Rightarrow> bool" where
  "model_inv m \<longleftrightarrow>
     session_inv (m_search m) \<and> render_inv (m_search m) \<and> m_selected m = None \<and>
     \<not> m_quitting m"

text \<open>What a list of highlight ranges has to satisfy for a label of \<open>n\<close> bytes: every
  range lies within the label and is not empty, and each range ends before the next one
  starts (so the ranges are in ascending order and do not overlap).\<close>

definition highlights_valid :: "nat \<Rightarrow> HighlightRange list \<Rightarrow> bool" where
  "highlights_valid n hs \<longleftrightarrow>
     (\<forall>h \<in> set hs. 0 \<le> Start h \<and> Start h < End h \<and> End h \<le> int n) \<and>
     sorted_wrt (\<lambda>a b. End a \<le> Start b) hs"

section \<open>Concrete inputs used in the examples\<close>

definition candidate :: "string \<Rightarrow> SearchResult" where
  "candidate k = \<lparr>Key = k, CreatedAt = 0, LastAccessed = 0, AccessCount = 0, Tags = None\<rparr>"

text \<open>The string that holds the single code point U+212A KELVIN SIGN: three bytes.\<close>

definition KelvinSign :: string where
  "KelvinSign = [char_of (0xE2::nat), char_of (0x84::nat), char_of (0xAA::nat)]"

definition two_keys :: "SearchResult list" where
  "two_keys = [candidate ''ab'', candidate ''abc'']"

definition eleven_keys :: "SearchResult list" where
  "eleven_keys =
     map candidate
       [''k0'', ''k1'', ''k2'', ''k3'', ''k4'', ''k5'', ''k6'', ''k7'', ''k8'', ''k9'', ''k10'']"

section \<open>Truncation and configuration\<close>

lemma limitResults_nonneg:
  "0 \<le> maxResults e \<Longrightarrow> limitResults e rs = Inr (take (nat (maxResults e)) rs)"
  by (simp add: limitResults_def)

lemma limitResults_negative:
  "maxResults e < 0 \<Longrightarrow> limitResults e rs = Inl SliceBoundsOutOfRange"
  by (simp add: limitResults_def)

lemma Search_nonneg_total:
  "0 \<le> maxResults e \<Longrightarrow>
     \<exists>rs. Search L e q secs = Inr rs \<and> int (length rs) \<le> maxResults e"
  by (auto simp: Search_def limitResults_nonneg)

lemma Search_negative_panics:
  "maxResults e < 0 \<Longrightarrow> Search L e q secs = Inl SliceBoundsOutOfRange"
  by (simp add: Search_def limitResults_def)

lemma SetMaxResults_nonneg_Search_total:
  "0 \<le> m \<Longrightarrow>
     maxResults (SetMaxResults e m) = m \<and>
     (\<exists>rs. Search L (SetMaxResults e m) q secs = Inr rs \<and> int (length rs) \<le> m)"
  using Search_nonneg_total [of "SetMaxResults e m" L q secs] by (simp add: SetMaxResults_def)

text \<open>
  Claim C4: after \<^verbatim>\<open>SetMaxResults(m)\<close> with any integer \<open>m\<close>, also a negative one, every
  search completes and the invalid cap is clamped to a default. \<^verbatim>\<open>SetMaxResults\<close> stores
  \<open>m\<close> as it is, and \<^verbatim>\<open>limitResults\<close> guards the slice expression
  \<^verbatim>\<open>results[:e.maxResults]\<close> only from above: with \<open>m = -1\<close> the search for \<^verbatim>\<open>a\<close> among
  the single candidate \<^verbatim>\<open>a\<close>, whose match list holds one result, panics. The \<^verbatim>\<open>list\<close>
  command hands the value of its \<^verbatim>\<open>--limit\<close> flag to the engine and replaces only 0 by a
  default, so a negative cap does reach the engine. Every search panics under every
  negative cap, and under a non-negative cap every search returns at most that many
  results (the two lemmas above).
\<close>

theorem SetMaxResults_negative_Search_panics:
  "Search unicode_ToLower (SetMaxResults NewEngine (- 1)) ''a'' [candidate ''a'']
     = Inl SliceBoundsOutOfRange"
  by code_simp

lemma SearchInteractive_results:
  "map_sum fst fst (SearchInteractive L e q secs k) = Search L (SetMaxResults e k) q secs"
  by (cases "Search L (SetMaxResults e k) q secs") (simp_all add: SearchInteractive_def Let_def)

lemma SearchInteractive_nonneg:
  assumes "0 \<le> k"
  shows "\<exists>rs. SearchInteractive L e q secs k = Inr (rs, e) \<and>
           Search L (SetMaxResults e k) q secs = Inr rs"
proof -
  have restore: "SetMaxResults (SetMaxResults e k) (maxResults e) = e"
    by (simp add: SetMaxResults_def)
  from Search_nonneg_total [of "SetMaxResults e k" L q secs] assms
  obtain rs where "Search L (SetMaxResults e k) q secs = Inr rs"
    by (auto simp: SetMaxResults_def)
  then show ?thesis by (simp add: SearchInteractive_def Let_def restore)
qed

lemma SearchInteractive_negative:
  assumes "k < 0"
  shows "SearchInteractive L e q secs k = Inl (SliceBoundsOutOfRange, e\<lparr>maxResults := k\<rparr>)"
proof -
  from assms have "Search L (SetMaxResults e k) q secs = Inl SliceBoundsOutOfRange"
    by (intro Search_negative_panics) (simp add: SetMaxResults_def)
  then show ?thesis by (simp add: SearchInteractive_def Let_def SetMaxResults_def)
qed

text \<open>
  Claim C10: for every cap \<open>k\<close>, \<^verbatim>\<open>SearchInteractive(query, secrets, k)\<close> returns the
  result list that \<^verbatim>\<open>Search\<close> returns with the cap set to \<open>k\<close>, and after the call the
  options of the engine are what they were before it. The outcome does agree with that of
  \<^verbatim>\<open>Search\<close> for every \<open>k\<close>, and for \<open>0 \<le> k\<close> the call returns and leaves the engine as
  it was (the lemmas above). With \<open>k = -1\<close> on the default engine the search panics after
  the cap was set and before it is set back: the call returns no result list and leaves
  the engine with \<^verbatim>\<open>maxResults = -1\<close>, where it was 100 before the call.
\<close>

theorem SearchInteractive_negative_cap_left:
  "SearchInteractive unicode_ToLower NewEngine ''a'' [candidate ''a''] (- 1)
     = Inl (SliceBoundsOutOfRange,
            \<lparr>caseSensitive = False, maxResults = - 1, highlightMatches = True\<rparr>)
   \<and> maxResults NewEngine = 100"
  by code_simp

section \<open>Ranking\<close>

text \<open>
  Claim C1 says that a candidate whose normalized label equals the normalized query is
  first in the result list when no other candidate scores 100. For the query \<^verbatim>\<open>abcd\<close>
  and the candidates \<^verbatim>\<open>abcd\<close> and \<^verbatim>\<open>abcXdXXX\<close> the engine with its default settings
  scores the exact match 100 and the subsequence match 115, and returns the subsequence
  match first. (In \<^verbatim>\<open>float64\<close>: 11.5 * 1 * 0.5 * 20, all exact.)
\<close>

theorem Search_fuzzy_before_exact:
  "Search unicode_ToLower NewEngine ''abcd'' [candidate ''abcd'', candidate ''abcXdXXX'']
     = Inr [\<lparr>Result = candidate ''abcXdXXX'', Score = 115,
              Highlights = [\<lparr>Start = 0, End = 3\<rparr>, \<lparr>Start = 4, End = 5\<rparr>]\<rparr>,
            \<lparr>Result = candidate ''abcd'', Score = 100,
              Highlights = [\<lparr>Start = 0, End = 4\<rparr>]\<rparr>]"
  by code_simp

text \<open>
  Claim C2 orders the tiers: exact above prefix above substring, and substring at least
  any subsequence score. Against the query \<^verbatim>\<open>abcd\<close> the labels \<^verbatim>\<open>abcd\<close>, \<^verbatim>\<open>abcdX\<close>
  and \<^verbatim>\<open>Xabcd\<close> score 100, 90 and 78, and the subsequence match \<^verbatim>\<open>abcXdXXX\<close> scores
  115, above all three.
\<close>

theorem scoreMatch_fuzzy_above_tiers:
  "scoreMatch unicode_ToLower NewEngine ''abcd'' ''abcd'' = (100, [\<lparr>Start = 0, End = 4\<rparr>]) \<and>
   scoreMatch unicode_ToLower NewEngine ''abcd'' ''abcdX'' = (90, [\<lparr>Start = 0, End = 4\<rparr>]) \<and>
   scoreMatch unicode_ToLower NewEngine ''abcd'' ''Xabcd'' = (78, [\<lparr>Start = 1, End = 5\<rparr>]) \<and>
   scoreMatch unicode_ToLower NewEngine ''abcd'' ''abcXdXXX''
     = (115, [\<lparr>Start = 0, End = 3\<rparr>, \<lparr>Start = 4, End = 5\<rparr>])"
  by code_simp

section \<open>Highlights\<close>

text \<open>
  Claim C6 bounds every highlight range by the length of the original label. The query
  that consists of U+212A KELVIN SIGN (three bytes) is normalized to \<^verbatim>\<open>k\<close>, a prefix of the
  label \<^verbatim>\<open>kb\<close>; the prefix tier ends the range at the length of the query as typed, 3,
  beyond the 2 bytes of the label.
\<close>

theorem Search_highlight_beyond_label:
  "Search unicode_ToLower NewEngine KelvinSign [candidate ''kb'']
     = Inr [\<lparr>Result = candidate ''kb'', Score = 90, Highlights = [\<lparr>Start = 0, End = 3\<rparr>]\<rparr>]
   \<and> length ''kb'' = 2"
  by code_simp

section \<open>The session\<close>

text \<open>
  Claim C3 says that the total behind the "more results" indicator counts every candidate
  with a positive score. With eleven keys that all match the query \<^verbatim>\<open>k\<close>, the session
  shows 5 results, \<^verbatim>\<open>Render\<close> computes \<^verbatim>\<open>totalMatches = 10\<close> through the session's engine
  (cap 10) and prints 5 more, where 11 candidates have a positive score.
\<close>

theorem Render_totalMatches_capped:
  "(case AddChar unicode_ToLower (NewInteractiveSearch eleven_keys) (CHR ''k'') of
      Inl p \<Rightarrow> None
    | Inr st \<Rightarrow>
        Some (length (results st),
              Render_totalMatches unicode_ToLower st,
              Render_moreCount unicode_ToLower st,
              length (filter
                (\<lambda>secret. 0 < fst (scoreMatch unicode_ToLower (engine st) (query st) (Key secret)))
                (secrets st))))
   = Some (5, Inr 10, Inr (Some 5), 11)"
  by code_simp

section \<open>The substring tier\<close>

lemma HasPrefix_iff: "HasPrefix s p \<longleftrightarrow> (\<exists>c. s = p @ c)"
proof
  assume "HasPrefix s p"
  then have "take (length p) s = p" by (simp add: HasPrefix_def)
  then have "s = p @ drop (length p) s" by (metis append_take_drop_id)
  then show "\<exists>c. s = p @ c" ..
next
  assume "\<exists>c. s = p @ c"
  then show "HasPrefix s p" by (auto simp: HasPrefix_def)
qed

lemma IndexFrom_first:
  "s = a @ sub @ c \<Longrightarrow> (\<forall>a' c'. s = a' @ sub @ c' \<longrightarrow> length a \<le> length a')
     \<Longrightarrow> IndexFrom i s sub = int i + int (length a)"
proof (induction s arbitrary: i a)
  case Nil
  then show ?case by simp
next
  case (Cons x xs)
  show ?case
  proof (cases "HasPrefix (x # xs) sub")
    case True
    then obtain c' where "x # xs = [] @ sub @ c'" by (auto simp: HasPrefix_iff)
    with Cons.prems(2) have "length a \<le> length ([]::string)" by blast
    then show ?thesis using True by simp
  next
    case False
    have "a \<noteq> []"
    proof
      assume "a = []"
      with Cons.prems(1) have "HasPrefix (x # xs) sub" by (auto simp: HasPrefix_iff)
      with False show False ..
    qed
    then obtain a0 where a: "a = x # a0" using Cons.prems(1) by (cases a) auto
    with Cons.prems(1) have xs: "xs = a0 @ sub @ c" by simp
    have "\<forall>a' c'. xs = a' @ sub @ c' \<longrightarrow> length a0 \<le> length a'"
    proof (intro allI impI)
      fix a' c' assume "xs = a' @ sub @ c'"
      then have "x # xs = (x # a') @ sub @ c'" by simp
      with Cons.prems(2) have "length a \<le> length (x # a')" by blast
      with a show "length a0 \<le> length a'" by simp
    qed
    from Cons.IH [OF xs this, of "Suc i"] False a show ?thesis by simp
  qed
qed

lemma IndexFrom_range: "IndexFrom i s sub = - 1 \<or> int i \<le> IndexFrom i s sub"
  by (induction s arbitrary: i) (auto, force)

lemma IndexFrom_found:
  "0 \<le> IndexFrom i s sub \<Longrightarrow> \<exists>a c. s = a @ sub @ c \<and> IndexFrom i s sub = int i + int (length a)"
proof (induction s arbitrary: i)
  case Nil
  then show ?case by (auto split: if_splits)
next
  case (Cons x xs)
  show ?case
  proof (cases "HasPrefix (x # xs) sub")
    case True
    then obtain c where c: "x # xs = [] @ sub @ c" by (auto simp: HasPrefix_iff)
    have "IndexFrom i (x # xs) sub = int i + int (length ([]::string))"
      using True by simp
    with c show ?thesis by blast
  next
    case False
    with Cons.prems have "0 \<le> IndexFrom (Suc i) xs sub" by simp
    from Cons.IH [OF this] obtain a c where
      "xs = a @ sub @ c" "IndexFrom (Suc i) xs sub = int (Suc i) + int (length a)" by blast
    then have "x # xs = (x # a) @ sub @ c"
      and "IndexFrom i (x # xs) sub = int i + int (length (x # a))"
      using False by simp_all
    then show ?thesis by blast
  qed
qed

text \<open>
  Claim C7: when the normalized query is not a prefix of the normalized label (so not
  equal to it either) and occurs in it, first at byte offset \<open>idx\<close>, then \<^verbatim>\<open>scoreMatch\<close>
  returns the score \<open>max 50 (80 - 2 * idx)\<close> and the single highlight range from \<open>idx\<close> to
  \<open>idx + len(query)\<close>. The occurrence is given as a decomposition
  \<open>a @ query @ c\<close> of the normalized label with no occurrence starting earlier, and
  \<open>idx\<close> is the length of \<open>a\<close>.
\<close>

theorem scoreMatch_substring_tier:
  assumes "q \<noteq> []"
    and "normalizeString L e target = a @ normalizeString L e q @ c"
    and "\<forall>a' c'. normalizeString L e target = a' @ normalizeString L e q @ c'
           \<longrightarrow> length a \<le> length a'"
    and "normalizeString L e q \<noteq> normalizeString L e target"
    and "\<not> prefix (normalizeString L e q) (normalizeString L e target)"
  shows "scoreMatch L e q target =
           (max 50 (80 - 2 * of_nat (length a)),
            [\<lparr>Start = int (length a), End = int (length a) + int (length q)\<rparr>])"
proof -
  have idx: "Index (normalizeString L e target) (normalizeString L e q) = int (length a)"
    using IndexFrom_first [OF assms(2) assms(3), of 0] by (simp add: Index_def)
  have np: "\<not> HasPrefix (normalizeString L e target) (normalizeString L e q)"
    using assms(5) by (auto simp: HasPrefix_iff prefix_def)
  show ?thesis
    using assms(4) np idx by (simp add: scoreMatch_def Let_def max_def not_less)
qed

theorem scoreMatch_substring_tier_witness:
  "''abcd'' \<noteq> [] \<and>
   normalizeString unicode_ToLower NewEngine ''XabcdYabcd''
     = ''x'' @ normalizeString unicode_ToLower NewEngine ''ABCD'' @ ''yabcd'' \<and>
   scoreMatch unicode_ToLower NewEngine ''ABCD'' ''XabcdYabcd'' = (78, [\<lparr>Start = 1, End = 5\<rparr>])"
proof -
  have q: "normalizeString unicode_ToLower NewEngine ''ABCD'' = ''abcd''" by code_simp
  have t: "normalizeString unicode_ToLower NewEngine ''XabcdYabcd'' = ''xabcdyabcd''" by code_simp
  have h1: "''ABCD'' \<noteq> []" by simp
  have h2: "normalizeString unicode_ToLower NewEngine ''XabcdYabcd''
     = ''x'' @ normalizeString unicode_ToLower NewEngine ''ABCD'' @ ''yabcd''"
    by (simp add: q t)
  have h3: "\<forall>a' c'. normalizeString unicode_ToLower NewEngine ''XabcdYabcd''
        = a' @ normalizeString unicode_ToLower NewEngine ''ABCD'' @ c' \<longrightarrow> length ''x'' \<le> length a'"
  proof (intro allI impI)
    fix a' c' :: string
    assume "normalizeString unicode_ToLower NewEngine ''XabcdYabcd''
        = a' @ normalizeString unicode_ToLower NewEngine ''ABCD'' @ c'"
    then have "a' \<noteq> []" by (auto simp: q t)
    then show "length ''x'' \<le> length a'" by (cases a') simp_all
  qed
  have h4: "normalizeString unicode_ToLower NewEngine ''ABCD''
      \<noteq> normalizeString unicode_ToLower NewEngine ''XabcdYabcd''"
    by (simp add: q t)
  have h5: "\<not> prefix (normalizeString unicode_ToLower NewEngine ''ABCD'')
      (normalizeString unicode_ToLower NewEngine ''XabcdYabcd'')"
    by (simp add: q t)
  from scoreMatch_substring_tier [OF h1 h2 h3 h4 h5]
  show ?thesis using h2 by simp
qed

section \<open>The session invariant\<close>

lemma updateResults_total:
  assumes "0 \<le> maxResults (engine st)"
  shows "\<exists>st'. updateResults L st = Inr st' \<and> engine st' = engine st \<and>
           secrets st' = secrets st \<and> query st' = query st \<and>
           int (length (results st')) \<le> MaxDisplayResults"
proof -
  from Search_nonneg_total [OF assms] obtain rs where
    rs: "Search L (engine st) (query st) (secrets st) = Inr rs" by blast
  show ?thesis
    by (simp add: updateResults_def rs Let_def MaxDisplayResults_def)
qed

lemma AddChar_total:
  assumes "0 \<le> maxResults (engine st)"
  shows "\<exists>st'. AddChar L st ch = Inr st' \<and> selected st' = 0 \<and> session_inv st'"
proof -
  from updateResults_total [of "st\<lparr>query := query st @ EncodeRune (byte ch)\<rparr>" L] assms
  obtain st1 where "updateResults L (st\<lparr>query := query st @ EncodeRune (byte ch)\<rparr>) = Inr st1"
    "engine st1 = engine st" "int (length (results st1)) \<le> MaxDisplayResults"
    by auto
  then show ?thesis using assms
    by (auto simp: AddChar_def session_inv_def)
qed

lemma RemoveChar_total:
  assumes "session_inv st"
  shows "\<exists>st'. RemoveChar L st = Inr st' \<and> session_inv st' \<and>
           (query st \<noteq> [] \<longrightarrow> selected st' = 0)"
proof (cases "query st = []")
  case True
  then show ?thesis using assms by (simp add: RemoveChar_def)
next
  case False
  from assms have e: "0 \<le> maxResults (engine st)" by (simp add: session_inv_def)
  from updateResults_total [of "st\<lparr>query := take (length (query st) - 1) (query st)\<rparr>" L] e
  obtain st1 where
    "updateResults L (st\<lparr>query := take (length (query st) - 1) (query st)\<rparr>) = Inr st1"
    "engine st1 = engine st" "int (length (results st1)) \<le> MaxDisplayResults"
    by auto
  then show ?thesis using e False
    by (auto simp: RemoveChar_def session_inv_def)
qed

lemma MoveSelection_inv:
  "session_inv st \<Longrightarrow> session_inv (MoveSelection st direction)"
  by (auto simp: MoveSelection_def session_inv_def Let_def)

lemma apply_op_inv:
  "session_inv st \<Longrightarrow> \<exists>st'. apply_op L st x = Inr st' \<and> session_inv st'"
proof (cases x)
  case (OpAddChar ch)
  assume "session_inv st"
  then have "0 \<le> maxResults (engine st)" by (simp add: session_inv_def)
  from AddChar_total [OF this, of L ch] show ?thesis using OpAddChar by auto
next
  case OpRemoveChar
  assume "session_inv st"
  from RemoveChar_total [OF this, of L] show ?thesis using OpRemoveChar by auto
next
  case (OpMoveSelection d)
  assume "session_inv st"
  then show ?thesis using OpMoveSelection by (simp add: MoveSelection_inv)
qed

lemma run_ops_inv:
  "session_inv st \<Longrightarrow> \<exists>st'. run_ops L st ops = Inr st' \<and> session_inv st'"
proof (induction ops arbitrary: st)
  case Nil
  then show ?case by simp
next
  case (Cons x xs)
  from apply_op_inv [OF Cons.prems, of L x] obtain st1 where
    st1: "apply_op L st x = Inr st1" "session_inv st1" by blast
  from Cons.IH [OF st1(2)] show ?case using st1(1) by simp
qed

lemma NewInteractiveSearch_inv: "session_inv (NewInteractiveSearch secs)"
  by (simp add: session_inv_def NewInteractiveSearch_def SetMaxResults_def NewEngine_def
      MaxDisplayResults_def)

text \<open>
  Claim C9: from the initial state, every sequence of \<^verbatim>\<open>AddChar\<close>, \<^verbatim>\<open>RemoveChar\<close> and
  \<^verbatim>\<open>MoveSelection\<close> calls (with any direction) runs without failure to a state in which
  the cursor is a valid index whenever results are shown and at most \<^verbatim>\<open>MaxDisplayResults\<close>
  (five) results are shown; and in that state every change of the query, by \<^verbatim>\<open>AddChar\<close> of
  any character or by \<^verbatim>\<open>RemoveChar\<close> on a non-empty query, puts the cursor back to 0.
\<close>

theorem session_invariant:
  "\<exists>st. run_ops L (NewInteractiveSearch secs) ops = Inr st
     \<and> (results st \<noteq> [] \<longrightarrow> 0 \<le> selected st \<and> selected st < int (length (results st)))
     \<and> int (length (results st)) \<le> MaxDisplayResults
     \<and> (\<forall>ch. \<exists>st'. AddChar L st ch = Inr st' \<and> selected st' = 0)
     \<and> (query st \<noteq> [] \<longrightarrow> (\<exists>st'. RemoveChar L st = Inr st' \<and> selected st' = 0))"
proof -
  from run_ops_inv [OF NewInteractiveSearch_inv, of L secs ops] obtain st where
    st: "run_ops L (NewInteractiveSearch secs) ops = Inr st" "session_inv st" by blast
  from st(2) have e: "0 \<le> maxResults (engine st)" by (simp add: session_inv_def)
  have add: "\<forall>ch. \<exists>st'. AddChar L st ch = Inr st' \<and> selected st' = 0"
    using AddChar_total [OF e, of L] by blast
  have rem: "query st \<noteq> [] \<longrightarrow> (\<exists>st'. RemoveChar L st = Inr st' \<and> selected st' = 0)"
    using RemoveChar_total [OF st(2), of L] by blast
  from st add rem show ?thesis
    unfolding session_inv_def by blast
qed

theorem session_invariant_witness:
  "\<exists>st. run_ops unicode_ToLower (NewInteractiveSearch two_keys)
          [OpAddChar (CHR ''a''), OpMoveSelection 1] = Inr st
     \<and> results st \<noteq> [] \<and> query st \<noteq> []
     \<and> selected st = 1 \<and> length (results st) = 2
     \<and> (\<exists>st'. AddChar unicode_ToLower st (CHR ''b'') = Inr st' \<and> selected st' = 0)
     \<and> (\<exists>st'. RemoveChar unicode_ToLower st = Inr st' \<and> selected st' = 0)"
proof -
  from session_invariant [of unicode_ToLower two_keys "[OpAddChar (CHR ''a''), OpMoveSelection 1]"]
  obtain st where
    run: "run_ops unicode_ToLower (NewInteractiveSearch two_keys)
          [OpAddChar (CHR ''a''), OpMoveSelection 1] = Inr st"
    and add: "\<forall>ch. \<exists>st'. AddChar unicode_ToLower st ch = Inr st' \<and> selected st' = 0"
    and rem: "query st \<noteq> [] \<longrightarrow> (\<exists>st'. RemoveChar unicode_ToLower st = Inr st' \<and> selected st' = 0)"
    by blast
  have ev: "map_sum id (\<lambda>st. (query st, length (results st), selected st))
      (run_ops unicode_ToLower (NewInteractiveSearch two_keys)
          [OpAddChar (CHR ''a''), OpMoveSelection 1]) = Inr (''a'', 2, 1)"
    by code_simp
  from ev run have facts: "query st = ''a''" "length (results st) = 2" "selected st = 1"
    by simp_all
  then have ne: "results st \<noteq> []" "query st \<noteq> []" by auto
  from run facts ne add rem show ?thesis by blast
qed

section \<open>Candidates that do not match\<close>

lemma set_sort_insert: "set (sort_insert lt x xs) = insert x (set xs)"
proof -
  have "set (take k xs) \<union> set (drop k xs) = set xs" for k
    by (metis append_take_drop_id set_append)
  then show ?thesis
    by (simp add: sort_insert_def Let_def)
qed

lemma set_foldl_sort_insert:
  "set (foldl (\<lambda>done_part x. sort_insert lt x done_part) acc xs) = set acc \<union> set xs"
  by (induction xs arbitrary: acc) (simp_all add: set_sort_insert)

lemma set_sort_Slice: "set (sort_Slice lt xs) = set xs"
  by (simp add: sort_Slice_def set_foldl_sort_insert)

lemma limitResults_subset: "limitResults e rs = Inr rs' \<Longrightarrow> set rs' \<subseteq> set rs"
  by (auto simp: limitResults_def split: if_splits dest: in_set_takeD)

lemma Search_matches_positive:
  "r \<in> set (Search_matches L e q secs) \<Longrightarrow> 0 < fst (scoreMatch L e q (Key (Result r)))"
  by (induction secs) (auto simp: case_prod_beta split: if_splits)

lemma fuzzyScore_loop_subseq:
  "fuzzyScore_loop qr tr qp tp c tot mp = (qp', tot', mp') \<Longrightarrow> length qr \<le> qp'
     \<Longrightarrow> subseq (drop qp qr) (drop tp tr)"
proof (induction qr tr qp tp c tot mp rule: fuzzyScore_loop.induct)
  case (1 qr tr qp tp c tot mp)
  show ?case
  proof (cases "qp < length qr \<and> tp < length tr")
    case False
    with "1.prems" have "qp' = qp"
      by (simp add: fuzzyScore_loop.simps [of qr tr qp tp])
    with "1.prems"(2) show ?thesis by simp
  next
    case True
    then have dq: "drop qp qr = qr ! qp # drop (Suc qp) qr"
      and dt: "drop tp tr = tr ! tp # drop (Suc tp) tr"
      by (simp_all add: Cons_nth_drop_Suc)
    show ?thesis
    proof (cases "qr ! qp = tr ! tp")
      case eq: True
      from "1.prems"(1) True eq have
        "fuzzyScore_loop qr tr (qp + 1) (tp + 1) (c + 1)
           (tot + (2 + of_nat (c + 1) * (1 / 2))) (mp @ [int tp]) = (qp', tot', mp')"
        by (simp add: fuzzyScore_loop.simps [of qr tr qp tp])
      from "1.IH"(1) [OF True eq this "1.prems"(2)]
      show ?thesis using dq dt eq by simp
    next
      case neq: False
      from "1.prems"(1) True neq have
        "fuzzyScore_loop qr tr qp (tp + 1) 0 tot mp = (qp', tot', mp')"
        by (simp add: fuzzyScore_loop.simps [of qr tr qp tp])
      from "1.IH"(2) [OF True neq this "1.prems"(2)]
      have "subseq (drop qp qr) (drop (Suc tp) tr)" by simp
      then have "subseq (drop qp qr) (tr ! tp # drop (Suc tp) tr)"
        by (rule list_emb_Cons)
      with dt show ?thesis by simp
    qed
  qed
qed

lemma fuzzyScore_positive_subseq:
  "0 < fst (fuzzyScore qn tn target) \<Longrightarrow> subseq (runes qn) (runes tn)"
proof -
  assume pos: "0 < fst (fuzzyScore qn tn target)"
  obtain qp tot mp where loop: "fuzzyScore_loop (runes qn) (runes tn) 0 0 0 0 [] = (qp, tot, mp)"
    by (cases "fuzzyScore_loop (runes qn) (runes tn) 0 0 0 0 []") auto
  from pos loop have "length (runes qn) \<le> qp"
    by (auto simp: fuzzyScore_def Let_def split: if_splits)
  from fuzzyScore_loop_subseq [OF loop this] show ?thesis by simp
qed

lemma scoreMatch_positive_cases:
  assumes "0 < fst (scoreMatch L e q label)"
  shows "sublist (normalizeString L e q) (normalizeString L e label) \<or>
         subseq (runes (normalizeString L e q)) (runes (normalizeString L e label))"
proof -
  let ?qn = "normalizeString L e q" and ?tn = "normalizeString L e label"
  show ?thesis
  proof (cases "?qn = ?tn")
    case True
    then show ?thesis by simp
  next
    case ne: False
    show ?thesis
    proof (cases "HasPrefix ?tn ?qn")
      case True
      then obtain c where "?tn = [] @ ?qn @ c" by (auto simp: HasPrefix_iff)
      then have "sublist ?qn ?tn" unfolding sublist_def by blast
      then show ?thesis ..
    next
      case np: False
      show ?thesis
      proof (cases "0 \<le> Index ?tn ?qn")
        case True
        from IndexFrom_found [of 0 ?tn ?qn] True obtain a c where "?tn = a @ ?qn @ c"
          by (auto simp: Index_def)
        then have "sublist ?qn ?tn" unfolding sublist_def by blast
        then show ?thesis ..
      next
        case False
        with assms ne np have "0 < fst (fuzzyScore ?qn ?tn label)"
          by (auto simp: scoreMatch_def Let_def split: prod.splits if_splits)
        from fuzzyScore_positive_subseq [OF this] show ?thesis ..
      qed
    qed
  qed
qed

lemma Search_result_positive:
  assumes "q \<noteq> []" and "Search L e q secs = Inr rs" and "r \<in> set rs"
  shows "0 < fst (scoreMatch L e q (Key (Result r)))"
proof -
  from assms(1,2) have "limitResults e (sort_Slice (Search_less L e q) (Search_matches L e q secs))
      = Inr rs"
    by (simp add: Search_def)
  from limitResults_subset [OF this] assms(3) have "r \<in> set (Search_matches L e q secs)"
    by (auto simp: set_sort_Slice)
  then show ?thesis by (rule Search_matches_positive)
qed

text \<open>
  Claim C8: for a non-empty query, a candidate whose normalized label does not contain the
  characters of the normalized query as an ordered subsequence is not in the result list,
  with no score at all. The engine compares bytes in the exact, prefix and substring tiers
  and runes in the subsequence tier, so "does not contain" is taken for both: neither the
  bytes nor the runes of the query are a subsequence of those of the label. On ASCII text
  the two conditions are one (\<open>subseq_runes_ASCII\<close> below), and on well-formed UTF-8 the
  condition on the bytes alone is enough (\<open>Search_excludes_non_subsequence_wellFormed\<close>).
\<close>

theorem Search_excludes_non_subsequence:
  assumes "q \<noteq> []"
    and "Search L e q secs = Inr rs"
    and "\<not> subseq (runes (normalizeString L e q)) (runes (normalizeString L e label))"
    and "\<not> subseq (normalizeString L e q) (normalizeString L e label)"
  shows "label \<notin> set (map (\<lambda>r. Key (Result r)) rs)"
proof
  assume "label \<in> set (map (\<lambda>r. Key (Result r)) rs)"
  then obtain r where r: "r \<in> set rs" "Key (Result r) = label" by auto
  from Search_result_positive [OF assms(1,2) r(1)] r(2)
  have "0 < fst (scoreMatch L e q label)" by simp
  from scoreMatch_positive_cases [OF this] assms(3) have
    "sublist (normalizeString L e q) (normalizeString L e label)"
    by blast
  then have "subseq (normalizeString L e q) (normalizeString L e label)"
    by (rule sublist_imp_subseq)
  with assms(4) show False ..
qed

theorem Search_excludes_non_subsequence_witness:
  "''xyz'' \<noteq> [] \<and>
   \<not> subseq (runes (normalizeString unicode_ToLower NewEngine ''xyz''))
        (runes (normalizeString unicode_ToLower NewEngine ''api_key'')) \<and>
   \<not> subseq (normalizeString unicode_ToLower NewEngine ''xyz'')
        (normalizeString unicode_ToLower NewEngine ''api_key'') \<and>
   (\<exists>rs. Search unicode_ToLower NewEngine ''xyz'' [candidate ''api_key'', candidate ''xyz_token'']
           = Inr rs \<and>
         ''api_key'' \<notin> set (map (\<lambda>r. Key (Result r)) rs) \<and>
         ''xyz_token'' \<in> set (map (\<lambda>r. Key (Result r)) rs))"
proof -
  have q: "normalizeString unicode_ToLower NewEngine ''xyz'' = ''xyz''" by code_simp
  have t: "normalizeString unicode_ToLower NewEngine ''api_key'' = ''api_key''" by code_simp
  have rq: "runes ''xyz'' = [120, 121, 122]" by code_simp
  have rt: "runes ''api_key'' = [97, 112, 105, 95, 107, 101, 121]" by code_simp
  have h1: "''xyz'' \<noteq> []" by simp
  have h3: "\<not> subseq (runes (normalizeString unicode_ToLower NewEngine ''xyz''))
        (runes (normalizeString unicode_ToLower NewEngine ''api_key''))"
    unfolding q t rq rt by simp
  have h4: "\<not> subseq (normalizeString unicode_ToLower NewEngine ''xyz'')
        (normalizeString unicode_ToLower NewEngine ''api_key'')"
    unfolding q t by simp
  have ev: "Search unicode_ToLower NewEngine ''xyz'' [candidate ''api_key'', candidate ''xyz_token'']
      = Inr [\<lparr>Result = candidate ''xyz_token'', Score = 90,
               Highlights = [\<lparr>Start = 0, End = 3\<rparr>]\<rparr>]"
    by code_simp
  from Search_excludes_non_subsequence [OF h1 ev h3 h4]
  have "''api_key'' \<notin> set (map (\<lambda>r. Key (Result r))
      [\<lparr>Result = candidate ''xyz_token'', Score = 90, Highlights = [\<lparr>Start = 0, End = 3\<rparr>]\<rparr>])" .
  moreover have "''xyz_token'' \<in> set (map (\<lambda>r. Key (Result r))
      [\<lparr>Result = candidate ''xyz_token'', Score = 90, Highlights = [\<lparr>Start = 0, End = 3\<rparr>]\<rparr>])"
    by (simp add: candidate_def)
  ultimately show ?thesis using h1 h3 h4 ev by blast
qed

text \<open>On ASCII strings a rune is a byte, and the two subsequence conditions coincide.\<close>

lemma runes_ASCII: "isASCII s \<Longrightarrow> runes s = map byte s"
  by (induction s) (simp_all add: isASCII_def)

lemma subseq_runes_ASCII:
  assumes "isASCII s" and "isASCII t"
  shows "subseq (runes s) (runes t) \<longleftrightarrow> subseq s t"
proof
  assume "subseq s t"
  then have "subseq (map byte s) (map byte t)" by (rule subseq_map)
  with assms show "subseq (runes s) (runes t)" by (simp add: runes_ASCII)
next
  assume "subseq (runes s) (runes t)"
  with assms have "subseq (map byte s) (map byte t)" by (simp add: runes_ASCII)
  then have "subseq (map char_of (map byte s)) (map char_of (map byte t))"
    by (rule subseq_map)
  then show "subseq s t" by (simp add: byte_def comp_def)
qed

text \<open>For well-formed strings a subsequence of runes is a subsequence of bytes, so a
  label that does not contain the bytes of the query in order is excluded.\<close>

lemma subseq_concat_map:
  "subseq xs ys \<Longrightarrow> subseq (concat (map f xs)) (concat (map f ys))"
proof (induction rule: list_emb.induct)
  case (list_emb_Nil ys)
  then show ?case by simp
next
  case (list_emb_Cons xs ys y)
  then show ?case by (simp add: list_emb_append2)
next
  case (list_emb_Cons2 x y xs ys)
  then show ?case by (simp add: subseq_append')
qed

lemma subseq_runes_imp_subseq_bytes:
  assumes "wellFormedUTF8 s" and "wellFormedUTF8 t" and "subseq (runes s) (runes t)"
  shows "subseq s t"
proof -
  from assms(3) have "subseq (concat (map EncodeRune (runes s))) (concat (map EncodeRune (runes t)))"
    by (rule subseq_concat_map)
  with assms(1,2) show ?thesis by (simp add: wellFormedUTF8_def)
qed

lemma Search_excludes_non_subsequence_wellFormed:
  assumes "q \<noteq> []"
    and "Search L e q secs = Inr rs"
    and "wellFormedUTF8 (normalizeString L e q)"
    and "wellFormedUTF8 (normalizeString L e label)"
    and "\<not> subseq (normalizeString L e q) (normalizeString L e label)"
  shows "label \<notin> set (map (\<lambda>r. Key (Result r)) rs)"
proof
  assume "label \<in> set (map (\<lambda>r. Key (Result r)) rs)"
  then obtain r where r: "r \<in> set rs" "Key (Result r) = label" by auto
  from Search_result_positive [OF assms(1,2) r(1)] r(2)
  have "0 < fst (scoreMatch L e q label)" by simp
  from scoreMatch_positive_cases [OF this] show False
  proof
    assume "sublist (normalizeString L e q) (normalizeString L e label)"
    then have "subseq (normalizeString L e q) (normalizeString L e label)"
      by (rule sublist_imp_subseq)
    with assms(5) show False ..
  next
    assume "subseq (runes (normalizeString L e q)) (runes (normalizeString L e label))"
    from subseq_runes_imp_subseq_bytes [OF assms(3,4) this]
    have "subseq (normalizeString L e q) (normalizeString L e label)" .
    with assms(5) show False ..
  qed
qed

section \<open>The scores of the tiers\<close>

text \<open>What does hold of the tier order of claim C2: the exact tier scores 100, the prefix
  tier 90, the substring tier between 50 and 80, a subsequence match at least 10 (with no
  upper bound), and no score is negative.\<close>

text \<open>The two divisions of \<^verbatim>\<open>fuzzyScore\<close> are by the rune counts of two non-empty
  strings, which are not zero.\<close>

lemma runes_eq_Nil_iff: "runes s = [] \<longleftrightarrow> s = []"
  by (cases s) (auto split: prod.splits)

lemma scoreMatch_exact:
  "normalizeString L e q = normalizeString L e label \<Longrightarrow> fst (scoreMatch L e q label) = 100"
  by (simp add: scoreMatch_def)

lemma scoreMatch_prefix:
  "normalizeString L e q \<noteq> normalizeString L e label \<Longrightarrow>
   HasPrefix (normalizeString L e label) (normalizeString L e q) \<Longrightarrow>
   fst (scoreMatch L e q label) = 90"
  by (simp add: scoreMatch_def)

lemma scoreMatch_substring_bounds:
  "normalizeString L e q \<noteq> normalizeString L e label \<Longrightarrow>
   \<not> HasPrefix (normalizeString L e label) (normalizeString L e q) \<Longrightarrow>
   0 \<le> Index (normalizeString L e label) (normalizeString L e q) \<Longrightarrow>
   50 \<le> fst (scoreMatch L e q label) \<and> fst (scoreMatch L e q label) \<le> 80"
  by (simp add: scoreMatch_def Let_def)

lemma fuzzyScore_range:
  "fst (fuzzyScore qn tn label) = 0 \<or> 10 \<le> fst (fuzzyScore qn tn label)"
proof (cases "length qn = 0 \<or> length tn = 0")
  case True
  then show ?thesis by (simp add: fuzzyScore_def)
next
  case False
  obtain qp tot mp where loop: "fuzzyScore_loop (runes qn) (runes tn) 0 0 0 0 [] = (qp, tot, mp)"
    by (cases "fuzzyScore_loop (runes qn) (runes tn) 0 0 0 0 []") auto
  show ?thesis
  proof (cases "qp < length (runes qn)")
    case True
    with False loop show ?thesis by (simp add: fuzzyScore_def Let_def)
  next
    case nl: False
    have clamp: "10 \<le> (if F < 10 then 10 else F)" for F :: rat
      by simp
    from False loop nl have "\<exists>F. fst (fuzzyScore qn tn label) = (if F < 10 then 10 else F)"
      unfolding fuzzyScore_def Let_def by (simp only: if_False split_conv fst_conv) blast
    with clamp have "10 \<le> fst (fuzzyScore qn tn label)"
      by metis
    then show ?thesis ..
  qed
qed

lemma scoreMatch_nonneg: "0 \<le> fst (scoreMatch L e q label)"
  using fuzzyScore_range [of "normalizeString L e q" "normalizeString L e label" label]
  by (auto simp: scoreMatch_def Let_def split: prod.splits)

section \<open>Highlights when normalization keeps the lengths\<close>

text \<open>What does hold of claim C6: when the query and the label have as many bytes after
  normalization as before (always in case-sensitive mode, and for ASCII strings), the
  highlights of every result are valid ranges of the label, ascending and disjoint.\<close>

lemma createHighlights_loop_valid:
  "sorted_wrt (\<lambda>a b. End a \<le> Start b) hs \<Longrightarrow>
   (\<forall>h \<in> set hs. 0 \<le> Start h \<and> Start h < End h \<and> End h \<le> start) \<Longrightarrow>
   0 \<le> start \<Longrightarrow> start < en \<Longrightarrow> en = prev + 1 \<Longrightarrow>
   sorted_wrt (<) (prev # ps) \<Longrightarrow> (\<forall>p \<in> set (prev # ps). p < int n) \<Longrightarrow>
   highlights_valid n (createHighlights_loop prev start en ps hs)"
proof (induction ps arbitrary: prev start en hs)
  case Nil
  then show ?case
    by (fastforce simp: highlights_valid_def sorted_wrt_append)
next
  case (Cons p ps)
  from Cons.prems(6) have lt: "prev < p" and srt: "sorted_wrt (<) (p # ps)" by auto
  from Cons.prems(7) have bnd: "\<forall>x \<in> set (p # ps). x < int n" by simp
  show ?case
  proof (cases "p = prev + 1")
    case True
    have "highlights_valid n (createHighlights_loop p start (p + 1) ps hs)"
      using Cons.prems(1,2,3) lt Cons.prems(4,5) srt bnd
      by (intro Cons.IH) auto
    with True show ?thesis by simp
  next
    case False
    let ?hs = "hs @ [\<lparr>Start = start, End = en\<rparr>]"
    have s: "sorted_wrt (\<lambda>a b. End a \<le> Start b) ?hs"
      using Cons.prems(1,2) by (auto simp: sorted_wrt_append)
    have b: "\<forall>h \<in> set ?hs. 0 \<le> Start h \<and> Start h < End h \<and> End h \<le> p"
      using Cons.prems(2,3,4,5) lt by fastforce
    have "highlights_valid n (createHighlights_loop p p (p + 1) ps ?hs)"
      using s b Cons.prems(3) lt srt bnd
      by (intro Cons.IH) auto
    with False show ?thesis by simp
  qed
qed

lemma createHighlights_valid:
  "sorted_wrt (<) ps \<Longrightarrow> (\<forall>p \<in> set ps. 0 \<le> p \<and> p < int n) \<Longrightarrow>
     highlights_valid n (createHighlights ps original)"
proof (cases ps)
  case Nil
  then show ?thesis by (simp add: createHighlights_def highlights_valid_def)
next
  case (Cons p0 rest)
  assume "sorted_wrt (<) ps" and "\<forall>p \<in> set ps. 0 \<le> p \<and> p < int n"
  with Cons have "highlights_valid n (createHighlights_loop p0 p0 (p0 + 1) rest [])"
    by (intro createHighlights_loop_valid) auto
  with Cons show ?thesis by (simp add: createHighlights_def)
qed

lemma fuzzyScore_loop_positions:
  "fuzzyScore_loop qr tr qp tp c tot mp = (qp', tot', mp') \<Longrightarrow>
   tp \<le> length tr \<Longrightarrow> sorted_wrt (<) mp \<Longrightarrow> (\<forall>p \<in> set mp. 0 \<le> p \<and> p < int tp) \<Longrightarrow>
   sorted_wrt (<) mp' \<and> (\<forall>p \<in> set mp'. 0 \<le> p \<and> p < int (length tr))"
proof (induction qr tr qp tp c tot mp rule: fuzzyScore_loop.induct)
  case (1 qr tr qp tp c tot mp)
  show ?case
  proof (cases "qp < length qr \<and> tp < length tr")
    case False
    with "1.prems"(1) have "mp' = mp"
      by (simp add: fuzzyScore_loop.simps [of qr tr qp tp])
    with "1.prems"(2,3,4) show ?thesis by fastforce
  next
    case True
    show ?thesis
    proof (cases "qr ! qp = tr ! tp")
      case eq: True
      from "1.prems"(1) True eq have run:
        "fuzzyScore_loop qr tr (qp + 1) (tp + 1) (c + 1)
           (tot + (2 + of_nat (c + 1) * (1 / 2))) (mp @ [int tp]) = (qp', tot', mp')"
        by (simp add: fuzzyScore_loop.simps [of qr tr qp tp])
      have s: "sorted_wrt (<) (mp @ [int tp])"
        using "1.prems"(3,4) by (auto simp: sorted_wrt_append)
      have b: "\<forall>p \<in> set (mp @ [int tp]). 0 \<le> p \<and> p < int (tp + 1)"
        using "1.prems"(4) by fastforce
      from True have "tp + 1 \<le> length tr" by simp
      from "1.IH"(1) [OF True eq run this s b] show ?thesis .
    next
      case neq: False
      from "1.prems"(1) True neq have run:
        "fuzzyScore_loop qr tr qp (tp + 1) 0 tot mp = (qp', tot', mp')"
        by (simp add: fuzzyScore_loop.simps [of qr tr qp tp])
      have b: "\<forall>p \<in> set mp. 0 \<le> p \<and> p < int (tp + 1)"
        using "1.prems"(4) by fastforce
      from True have "tp + 1 \<le> length tr" by simp
      from "1.IH"(2) [OF True neq run this "1.prems"(3) b] show ?thesis .
    qed
  qed
qed

lemma length_runes_le: "length (runes s) \<le> length s"
proof (induction s rule: length_induct)
  case (1 s)
  show ?case
  proof (cases s)
    case Nil
    then show ?thesis by simp
  next
    case (Cons c t)
    obtain r w where d: "DecodeRuneInString (c # t) = (r, w)"
      by (cases "DecodeRuneInString (c # t)") auto
    have "snd (DecodeRuneInString (c # t)) \<in> {1, 2, 3, 4}"
      by (simp add: Let_def)
    with d have w: "0 < w" by auto
    then have "length (drop w (c # t)) < length s" using Cons by simp
    with 1 have "length (runes (drop w (c # t))) \<le> length (drop w (c # t))" by blast
    with w Cons d show ?thesis by simp
  qed
qed

lemma fuzzyScore_highlights_valid:
  "length (runes tn) \<le> n \<Longrightarrow> highlights_valid n (snd (fuzzyScore qn tn target))"
proof -
  assume n: "length (runes tn) \<le> n"
  obtain qp tot mp where loop: "fuzzyScore_loop (runes qn) (runes tn) 0 0 0 0 [] = (qp, tot, mp)"
    by (cases "fuzzyScore_loop (runes qn) (runes tn) 0 0 0 0 []") auto
  from fuzzyScore_loop_positions [OF loop] have
    "sorted_wrt (<) mp" "\<forall>p \<in> set mp. 0 \<le> p \<and> p < int (length (runes tn))"
    by simp_all
  with n have "sorted_wrt (<) mp" "\<forall>p \<in> set mp. 0 \<le> p \<and> p < int n" by fastforce+
  then have "highlights_valid n (createHighlights mp (runes target))"
    by (rule createHighlights_valid)
  moreover have "highlights_valid n []" by (simp add: highlights_valid_def)
  ultimately show ?thesis
    using loop by (simp add: fuzzyScore_def Let_def)
qed

lemma scoreMatch_highlights_valid:
  assumes lq: "length (normalizeString L e q) = length q"
    and lt: "length (normalizeString L e label) = length label"
    and ne: "q \<noteq> []"
  shows "highlights_valid (length label) (snd (scoreMatch L e q label))"
proof -
  let ?qn = "normalizeString L e q" and ?tn = "normalizeString L e label"
  show ?thesis
  proof (cases "?qn = ?tn")
    case True
    with lq lt ne have "0 < length label" by (metis length_greater_0_conv)
    with True show ?thesis by (simp add: scoreMatch_def highlights_valid_def)
  next
    case nq: False
    show ?thesis
    proof (cases "HasPrefix ?tn ?qn")
      case True
      then have "length ?qn \<le> length ?tn" by (simp add: HasPrefix_def)
      with lq lt have "length q \<le> length label" by simp
      with nq True ne show ?thesis by (simp add: scoreMatch_def highlights_valid_def)
    next
      case np: False
      show ?thesis
      proof (cases "0 \<le> Index ?tn ?qn")
        case True
        from IndexFrom_found [of 0 ?tn ?qn] True obtain a c where
          d: "?tn = a @ ?qn @ c" and i: "Index ?tn ?qn = int (length a)"
          by (auto simp: Index_def)
        from d have "length ?tn = length a + length ?qn + length c" by (metis length_append add.assoc)
        with lq lt have "length a + length q \<le> length label" by simp
        with nq np True i ne show ?thesis
          by (simp add: scoreMatch_def Let_def highlights_valid_def)
      next
        case False
        have "length (runes ?tn) \<le> length label"
          using length_runes_le [of ?tn] lt by simp
        from fuzzyScore_highlights_valid [OF this, of ?qn label]
        have v: "highlights_valid (length label) (snd (fuzzyScore ?qn ?tn label))" .
        have e: "highlights_valid (length label) []" by (simp add: highlights_valid_def)
        from nq np False v e show ?thesis
          by (auto simp: scoreMatch_def Let_def split: prod.splits)
      qed
    qed
  qed
qed


lemma Search_matches_highlights:
  "r \<in> set (Search_matches L e q secs) \<Longrightarrow>
     Highlights r = [] \<or> Highlights r = snd (scoreMatch L e q (Key (Result r)))"
  by (induction secs) (auto simp: case_prod_beta split: if_splits)

lemma Search_result_in_matches:
  assumes "q \<noteq> []" and "Search L e q secs = Inr rs" and "r \<in> set rs"
  shows "r \<in> set (Search_matches L e q secs)"
proof -
  from assms(1,2) have "limitResults e (sort_Slice (Search_less L e q) (Search_matches L e q secs))
      = Inr rs"
    by (simp add: Search_def)
  from limitResults_subset [OF this] assms(3) show ?thesis
    by (auto simp: set_sort_Slice)
qed

lemma Search_highlights_valid:
  assumes "q \<noteq> []" and "Search L e q secs = Inr rs" and "r \<in> set rs"
    and "length (normalizeString L e q) = length q"
    and "length (normalizeString L e (Key (Result r))) = length (Key (Result r))"
  shows "highlights_valid (length (Key (Result r))) (Highlights r)"
proof -
  from Search_result_in_matches [OF assms(1,2,3)]
  have "Highlights r = [] \<or> Highlights r = snd (scoreMatch L e q (Key (Result r)))"
    by (rule Search_matches_highlights)
  moreover have "highlights_valid (length (Key (Result r))) []"
    by (simp add: highlights_valid_def)
  moreover note scoreMatch_highlights_valid [OF assms(4,5,1)]
  ultimately show ?thesis by auto
qed

lemma normalizeString_length_caseSensitive:
  "caseSensitive e \<Longrightarrow> length (normalizeString L e s) = length s"
  by (simp add: normalizeString_def)

lemma normalizeString_length_ASCII:
  "isASCII s \<Longrightarrow> length (normalizeString L e s) = length s"
  by (simp add: normalizeString_def ToLower_def)

section \<open>Keys that the vault admits are ASCII\<close>

text \<open>A byte from 0x80 on decodes to a rune from U+0080 on (to U+FFFD when it does not
  start a well-formed encoding), and no such rune is a valid key character: a key that
  \<^verbatim>\<open>validateKey\<close> admits is a non-empty string of ASCII bytes.\<close>

lemma runes_validPunct:
  "runes validPunct =
     [0x2E, 0x2D, 0x5F, 0x3A, 0x2F, 0x40, 0x23, 0x24, 0x25, 0x5E, 0x26, 0x2A, 0x2B, 0x3D,
      0x5B, 0x5D, 0x7B, 0x7D, 0x7C, 0x5C, 0x3B, 0x22, 0x27, 0x3C, 0x3E, 0x3F, 0x7E, 0x60]"
  by code_simp

lemma isValidKeyChar_ASCII: "isValidKeyChar r \<Longrightarrow> r < 0x80"
  unfolding isValidKeyChar_def runes_validPunct by (auto split: if_splits)

lemma mod_shift: "k * m \<le> b \<Longrightarrow> b < k * m + m \<Longrightarrow> b mod m = b - k * m" for b :: nat
proof -
  assume h: "k * m \<le> b" "b < k * m + m"
  then obtain d where d: "b = k * m + d" using le_Suc_ex by blast
  with h have "d < m" by simp
  with d show ?thesis by simp
qed

lemma decode2_bound: "194 \<le> b0 \<Longrightarrow> b0 < 224 \<Longrightarrow> (128::nat) \<le> b0 mod 32 * 64 + x"
proof -
  assume h: "194 \<le> b0" "b0 < 224"
  with mod_shift [of 6 32 b0] have "b0 mod 32 = b0 - 192" by simp
  with h show ?thesis by simp
qed

lemma decode3_bound:
  "224 \<le> b0 \<Longrightarrow> b0 < 240 \<Longrightarrow> (b0 = 224 \<longrightarrow> 160 \<le> b1 \<and> b1 \<le> 191) \<Longrightarrow>
     (128::nat) \<le> b0 mod 16 * 4096 + b1 mod 64 * 64 + x"
proof -
  assume h: "224 \<le> b0" "b0 < 240" "b0 = 224 \<longrightarrow> 160 \<le> b1 \<and> b1 \<le> 191"
  with mod_shift [of 14 16 b0] have m: "b0 mod 16 = b0 - 224" by simp
  show ?thesis
  proof (cases "b0 = 224")
    case True
    with h have b: "160 \<le> b1" "b1 \<le> 191" by simp_all
    with mod_shift [of 2 64 b1] have "b1 mod 64 = b1 - 128" by simp
    with b show ?thesis by simp
  next
    case False
    with h m have "1 \<le> b0 mod 16" by simp
    then have "4096 \<le> b0 mod 16 * 4096" by simp
    then show ?thesis by linarith
  qed
qed

lemma decode4_bound:
  "240 \<le> b0 \<Longrightarrow> b0 \<le> 244 \<Longrightarrow> (b0 = 240 \<longrightarrow> 144 \<le> b1 \<and> b1 \<le> 191) \<Longrightarrow>
     (128::nat) \<le> b0 mod 8 * 262144 + b1 mod 64 * 4096 + x"
proof -
  assume h: "240 \<le> b0" "b0 \<le> 244" "b0 = 240 \<longrightarrow> 144 \<le> b1 \<and> b1 \<le> 191"
  with mod_shift [of 30 8 b0] have m: "b0 mod 8 = b0 - 240" by simp
  show ?thesis
  proof (cases "b0 = 240")
    case True
    with h have b: "144 \<le> b1" "b1 \<le> 191" by simp_all
    with mod_shift [of 2 64 b1] have "b1 mod 64 = b1 - 128" by simp
    with b show ?thesis by simp
  next
    case False
    with h m have "1 \<le> b0 mod 8" by simp
    then have "262144 \<le> b0 mod 8 * 262144" by simp
    then show ?thesis by linarith
  qed
qed

lemma DecodeRuneInString_nonASCII:
  assumes "0x80 \<le> byte c"
  shows "0x80 \<le> fst (DecodeRuneInString (c # t))"
proof -
  consider (inv) "byte c < 0xC2 \<or> 0xF4 < byte c"
    | (two) "0xC2 \<le> byte c" "byte c < 0xE0"
    | (three) "0xE0 \<le> byte c" "byte c < 0xF0"
    | (four) "0xF0 \<le> byte c" "byte c \<le> 0xF4"
    by linarith
  then show ?thesis
  proof cases
    case inv
    with assms have "DecodeRuneInString (c # t) = (RuneError, 1)"
      by (simp add: Let_def)
    then show ?thesis by (simp add: RuneError_def)
  next
    case two
    then have "fst (DecodeRuneInString (c # t)) = RuneError \<or>
        fst (DecodeRuneInString (c # t)) = byte c mod 32 * 64 + byte (t ! 0) mod 64"
      using assms by (auto simp: Let_def)
    with decode2_bound [OF two] show ?thesis by (auto simp: RuneError_def)
  next
    case three
    then have "fst (DecodeRuneInString (c # t)) = RuneError \<or>
        (fst (DecodeRuneInString (c # t))
           = byte c mod 16 * 4096 + byte (t ! 0) mod 64 * 64 + byte (t ! 1) mod 64 \<and>
         (byte c = 224 \<longrightarrow> 160 \<le> byte (t ! 0) \<and> byte (t ! 0) \<le> 191))"
      using assms by (auto simp: Let_def)
    with decode3_bound [OF three] show ?thesis by (auto simp: RuneError_def)
  next
    case four
    then have "fst (DecodeRuneInString (c # t)) = RuneError \<or>
        (fst (DecodeRuneInString (c # t))
           = byte c mod 8 * 262144 + byte (t ! 0) mod 64 * 4096
             + (byte (t ! 1) mod 64 * 64 + byte (t ! 2) mod 64) \<and>
         (byte c = 240 \<longrightarrow> 144 \<le> byte (t ! 0) \<and> byte (t ! 0) \<le> 191))"
      using assms by (auto simp: Let_def)
    with decode4_bound [OF four] show ?thesis by (auto simp: RuneError_def)
  qed
qed

lemma runes_ASCII_only:
  "list_all (\<lambda>r. r < 0x80) (runes s) \<Longrightarrow> isASCII s"
proof (induction s rule: length_induct)
  case (1 s)
  show ?case
  proof (cases s)
    case Nil
    then show ?thesis by (simp add: isASCII_def)
  next
    case (Cons c t)
    obtain r w where d: "DecodeRuneInString (c # t) = (r, w)"
      by (cases "DecodeRuneInString (c # t)") auto
    with "1.prems" Cons have r: "r < 0x80" and rest: "list_all (\<lambda>r. r < 0x80) (runes (drop w (c # t)))"
      by simp_all
    have c: "byte c < 0x80"
    proof (rule ccontr)
      assume "\<not> byte c < 0x80"
      then have "0x80 \<le> fst (DecodeRuneInString (c # t))"
        by (intro DecodeRuneInString_nonASCII) simp
      with d r show False by simp
    qed
    with d have "w = 1" by (simp add: Let_def)
    with rest have "list_all (\<lambda>r. r < 0x80) (runes t)" by simp
    with 1 Cons have "isASCII t" by simp
    with c Cons show ?thesis by (simp add: isASCII_def)
  qed
qed

lemma validateKey_ok:
  assumes "validateKey key = None"
  shows "key \<noteq> []" and "isASCII key"
proof -
  from assms show "key \<noteq> []" by (auto simp: validateKey_def split: if_splits)
  from assms have "\<not> list_ex (\<lambda>r. \<not> isValidKeyChar r) (runes key)"
    by (auto simp: validateKey_def split: if_splits)
  then have "list_all (\<lambda>r. r < 0x80) (runes key)"
    by (auto simp: list_ex_iff list_all_iff intro: isValidKeyChar_ASCII)
  then show "isASCII key" by (rule runes_ASCII_only)
qed

section \<open>Rendering a session over valid keys\<close>

text \<open>The highlights that the engine computes for an ASCII label start within the label,
  which is what \<^verbatim>\<open>applyHighlights\<close> needs for its slice expressions: \<^verbatim>\<open>Render\<close> and
  \<^verbatim>\<open>View\<close> do not panic on a session over valid keys.\<close>

lemma Search_matches_Result:
  "r \<in> set (Search_matches L e q secs) \<Longrightarrow> Result r \<in> set secs"
  by (induction secs) (auto simp: case_prod_beta split: if_splits)

lemma scoreMatch_renderable:
  assumes "isASCII label"
  shows "renderable label (snd (scoreMatch L e q label))"
proof -
  let ?qn = "normalizeString L e q" and ?tn = "normalizeString L e label"
  from assms have len: "length (runes label) = length label" by (simp add: runes_ASCII)
  have lt: "length ?tn = length label" by (rule normalizeString_length_ASCII [OF assms])
  show ?thesis
  proof (cases "?qn = ?tn")
    case True
    then show ?thesis by (simp add: scoreMatch_def renderable_def)
  next
    case nq: False
    show ?thesis
    proof (cases "HasPrefix ?tn ?qn")
      case True
      with nq show ?thesis by (simp add: scoreMatch_def renderable_def)
    next
      case np: False
      show ?thesis
      proof (cases "0 \<le> Index ?tn ?qn")
        case True
        from IndexFrom_found [of 0 ?tn ?qn] True obtain a c where
          d: "?tn = a @ ?qn @ c" and i: "Index ?tn ?qn = int (length a)"
          by (auto simp: Index_def)
        from d have "length ?tn = length a + length ?qn + length c"
          by (metis length_append add.assoc)
        with lt have "length a \<le> length label" by simp
        with nq np True i len show ?thesis
          by (simp add: scoreMatch_def Let_def renderable_def)
      next
        case False
        have "length (runes ?tn) \<le> length (runes label)"
          using length_runes_le [of ?tn] lt len by simp
        from fuzzyScore_highlights_valid [OF this, of ?qn label]
        have "highlights_valid (length (runes label)) (snd (fuzzyScore ?qn ?tn label))" .
        then have "renderable label (snd (fuzzyScore ?qn ?tn label))"
          by (fastforce simp: highlights_valid_def renderable_def)
        moreover have "renderable label []" by (simp add: renderable_def)
        ultimately show ?thesis using nq np False
          by (auto simp: scoreMatch_def Let_def split: prod.splits)
      qed
    qed
  qed
qed

lemma Search_results_renderable:
  assumes "Search L e q secs = Inr rs" and "r \<in> set rs"
    and "\<forall>s \<in> set secs. isASCII (Key s)"
  shows "Result r \<in> set secs \<and> renderable (Key (Result r)) (Highlights r)"
proof (cases "q = []")
  case True
  with assms(1) have
    "limitResults e (map (\<lambda>secret. \<lparr>Result = secret, Score = 0, Highlights = []\<rparr>) secs) = Inr rs"
    by (simp add: Search_def)
  from limitResults_subset [OF this] assms(2) show ?thesis
    by (auto simp: renderable_def)
next
  case False
  from Search_result_in_matches [OF False assms(1,2)]
  have m: "r \<in> set (Search_matches L e q secs)" .
  then have in_secs: "Result r \<in> set secs" by (rule Search_matches_Result)
  with assms(3) have "isASCII (Key (Result r))" by blast
  then have "renderable (Key (Result r)) (snd (scoreMatch L e q (Key (Result r))))"
    by (rule scoreMatch_renderable)
  moreover have "renderable (Key (Result r)) []" by (simp add: renderable_def)
  moreover note Search_matches_highlights [OF m]
  ultimately show ?thesis using in_secs by auto
qed

lemma applyHighlights_loop_total:
  "(\<forall>h \<in> set hs. 0 \<le> Start h \<and> Start h \<le> End h \<and> Start h \<le> int (length rs)) \<Longrightarrow>
   0 \<le> pos \<Longrightarrow>
     \<exists>pos' out'. applyHighlights_loop rs pos hs out = Inr (pos', out') \<and> 0 \<le> pos'"
proof (induction hs arbitrary: pos out)
  case Nil
  then show ?case by simp
next
  case (Cons h hs)
  from Cons.prems(1) have h: "0 \<le> Start h" "Start h \<le> End h" "Start h \<le> int (length rs)"
    and rest: "\<forall>h \<in> set hs. 0 \<le> Start h \<and> Start h \<le> End h \<and> Start h \<le> int (length rs)"
    by simp_all
  define out1 where "out1 =
    (if pos < Start h
     then out @ [Plain (string_of_runes (take (nat (Start h - pos)) (drop (nat pos) rs)))]
     else out)"
  have before: "(if pos < Start h then
                   case go_slice rs pos (Start h) of
                     Inl p \<Rightarrow> Inl p
                   | Inr before \<Rightarrow> Inr (out @ [Plain (string_of_runes before)])
                 else Inr out) = Inr out1"
    using h Cons.prems(2) by (simp add: go_slice_def out1_def)
  show ?case
  proof (cases "End h \<le> int (length rs)")
    case True
    with h have s: "go_slice rs (Start h) (End h)
        = Inr (take (nat (End h - Start h)) (drop (nat (Start h)) rs))"
      by (simp add: go_slice_def)
    from h have "0 \<le> End h" by simp
    from Cons.IH [OF rest this] show ?thesis
      by (simp add: before True s)
  next
    case False
    from Cons.IH [OF rest Cons.prems(2)] show ?thesis
      by (simp add: before False)
  qed
qed

lemma applyHighlights_total:
  assumes "renderable label hs"
  shows "\<exists>segs. applyHighlights label hs = Inr segs"
proof (cases "hs = []")
  case True
  then show ?thesis by (simp add: applyHighlights_def)
next
  case False
  from assms have
    "\<forall>h \<in> set hs. 0 \<le> Start h \<and> Start h \<le> End h \<and> Start h \<le> int (length (runes label))"
    by (simp add: renderable_def)
  from applyHighlights_loop_total [OF this, of 0 "[]"] obtain pos out where
    l: "applyHighlights_loop (runes label) 0 hs [] = Inr (pos, out)" and p: "0 \<le> pos"
    by auto
  show ?thesis using False l p by (simp add: applyHighlights_def Let_def go_slice_def)
qed

lemma renderResult_total:
  "renderable (Key (Result r)) (Highlights r) \<Longrightarrow> \<exists>line. renderResult r sel = Inr line"
  using applyHighlights_total [of "Key (Result r)" "Highlights r"]
  by (auto simp: renderResult_def)

lemma Render_lines_total:
  "\<forall>r \<in> set rs. renderable (Key (Result r)) (Highlights r) \<Longrightarrow>
     \<exists>lines. Render_lines st i rs = Inr lines"
proof (induction rs arbitrary: i)
  case Nil
  then show ?case by simp
next
  case (Cons r rs)
  from Cons.prems have "renderable (Key (Result r)) (Highlights r)" by simp
  from renderResult_total [OF this] obtain line where
    line: "renderResult r (i = selected st) = Inr line" by blast
  from Cons.prems have "\<forall>r \<in> set rs. renderable (Key (Result r)) (Highlights r)" by simp
  from Cons.IH [OF this, of "i + 1"] obtain lines where
    "Render_lines st (i + 1) rs = Inr lines" by blast
  with line show ?case by simp
qed

lemma Render_moreCount_total:
  assumes "0 \<le> maxResults (engine st)"
  shows "\<exists>c. Render_moreCount L st = Inr c"
proof -
  from Search_nonneg_total [OF assms] obtain rs where
    "Search L (engine st) (query st) (secrets st) = Inr rs" by blast
  then show ?thesis by (simp add: Render_moreCount_def Render_totalMatches_def)
qed

lemma Render_total:
  assumes "session_inv st" and "render_inv st"
  shows "\<exists>screen. Render L st = Inr screen"
proof -
  from assms(2) have "\<forall>r \<in> set (results st). renderable (Key (Result r)) (Highlights r)"
    by (simp add: render_inv_def)
  from Render_lines_total [OF this] obtain lines where
    lines: "Render_lines st 0 (results st) = Inr lines" by blast
  from assms(1) have "0 \<le> maxResults (engine st)" by (simp add: session_inv_def)
  from Render_moreCount_total [OF this] obtain c where
    c: "Render_moreCount L st = Inr c" by blast
  from lines c show ?thesis by (simp add: Render_def)
qed

lemma View_total:
  "session_inv (m_search m) \<Longrightarrow> render_inv (m_search m) \<Longrightarrow> \<exists>screen. View L m = Inr screen"
  using Render_total [of "m_search m" L] by (auto simp: View_def)

lemma updateResults_results:
  "updateResults L st = Inr st' \<Longrightarrow>
     \<exists>found. Search L (engine st) (query st) (secrets st) = Inr found \<and>
       set (results st') \<subseteq> set found \<and> secrets st' = secrets st"
  by (auto simp: updateResults_def Let_def split: sum.splits if_splits dest: in_set_takeD)

lemma updateResults_render:
  assumes "\<forall>s \<in> set (secrets st). validateKey (Key s) = None"
    and "updateResults L st = Inr st'"
  shows "render_inv st' \<and> secrets st' = secrets st"
proof -
  from updateResults_results [OF assms(2)] obtain found where
    f: "Search L (engine st) (query st) (secrets st) = Inr found"
    and sub: "set (results st') \<subseteq> set found" and sec: "secrets st' = secrets st"
    by blast
  from assms(1) have ascii: "\<forall>s \<in> set (secrets st). isASCII (Key s)"
    using validateKey_ok(2) by blast
  have "Result r \<in> set (secrets st) \<and> renderable (Key (Result r)) (Highlights r)"
    if "r \<in> set (results st')" for r
    using Search_results_renderable [OF f _ ascii] that sub by blast
  with assms(1) sec show ?thesis by (simp add: render_inv_def)
qed

lemma AddChar_render:
  assumes "render_inv st" and "AddChar L st ch = Inr st'"
  shows "render_inv st' \<and> secrets st' = secrets st"
proof -
  let ?st = "st\<lparr>query := query st @ EncodeRune (byte ch)\<rparr>"
  from assms(2) obtain st1 where u: "updateResults L ?st = Inr st1"
    and st': "st' = st1\<lparr>selected := 0\<rparr>"
    by (auto simp: AddChar_def split: sum.splits)
  from assms(1) have "\<forall>s \<in> set (secrets ?st). validateKey (Key s) = None"
    by (simp add: render_inv_def)
  from updateResults_render [OF this u] show ?thesis
    by (auto simp: st' render_inv_def)
qed

lemma RemoveChar_render:
  assumes "render_inv st" and "RemoveChar L st = Inr st'"
  shows "render_inv st' \<and> secrets st' = secrets st"
proof (cases "query st = []")
  case True
  with assms show ?thesis by (simp add: RemoveChar_def)
next
  case False
  let ?st = "st\<lparr>query := take (length (query st) - 1) (query st)\<rparr>"
  from assms(2) False obtain st1 where u: "updateResults L ?st = Inr st1"
    and st': "st' = st1\<lparr>selected := 0\<rparr>"
    by (auto simp: RemoveChar_def split: sum.splits)
  from assms(1) have "\<forall>s \<in> set (secrets ?st). validateKey (Key s) = None"
    by (simp add: render_inv_def)
  from updateResults_render [OF this u] show ?thesis
    by (auto simp: st' render_inv_def)
qed

lemma MoveSelection_render:
  "render_inv st \<Longrightarrow>
     render_inv (MoveSelection st direction) \<and> secrets (MoveSelection st direction) = secrets st"
  by (simp add: MoveSelection_def render_inv_def Let_def)

lemma NewInteractiveSearch_render:
  "\<forall>s \<in> set secs. validateKey (Key s) = None \<Longrightarrow> render_inv (NewInteractiveSearch secs)"
  by (simp add: render_inv_def NewInteractiveSearch_def)

section \<open>The outcome of a session\<close>

lemma GetSelectedResult_inv:
  "session_inv st \<Longrightarrow>
     GetSelectedResult st = (if results st = [] then None else Some (results st ! nat (selected st)))"
  by (auto simp: GetSelectedResult_def session_inv_def)

lemma GetSelectedResult_mem:
  "GetSelectedResult st = Some sel \<Longrightarrow> sel \<in> set (results st)"
  by (auto simp: GetSelectedResult_def split: if_splits)

lemma Update_inv:
  assumes "model_inv m"
  shows "\<exists>m' quit. Update L m msg = Inr (m', quit) \<and>
           session_inv (m_search m') \<and> render_inv (m_search m') \<and>
           secrets (m_search m') = secrets (m_search m) \<and>
           (\<not> quit \<longrightarrow> model_inv m') \<and>
           (quit \<longrightarrow> (m_quitting m' \<longrightarrow> m_selected m' = None) \<and>
                    (\<not> m_quitting m' \<longrightarrow> m_selected m' = GetSelectedResult (m_search m')))"
proof -
  from assms have inv: "session_inv (m_search m)" and rinv: "render_inv (m_search m)"
    and sel: "m_selected m = None" and nq: "\<not> m_quitting m"
    by (simp_all add: model_inv_def)
  have stay: "?thesis" if "Update L m msg = Inr (m\<lparr>m_search := st'\<rparr>, False)"
    and "session_inv st'" and "render_inv st' \<and> secrets st' = secrets (m_search m)" for st'
  proof -
    have "model_inv (m\<lparr>m_search := st'\<rparr>)"
      using that(2,3) sel nq by (simp add: model_inv_def)
    with that show ?thesis by auto
  qed
  have quit: "?thesis" if "Update L m msg = Inr (m', True)"
    and "m_search m' = m_search m"
    and "m_quitting m' \<longrightarrow> m_selected m' = None"
    and "\<not> m_quitting m' \<longrightarrow> m_selected m' = GetSelectedResult (m_search m')" for m'
    using that inv rinv by auto
  have same: "?thesis" if "Update L m msg = Inr (m, False)"
    using that assms inv rinv by auto
  show ?thesis
  proof (cases msg)
    case OtherMsg
    have "Update L m OtherMsg = Inr (m, False)" by simp
    with OtherMsg show ?thesis by (intro same) simp
  next
    case (KeyMsg key)
    show ?thesis
    proof (cases "key = ''ctrl+c'' \<or> key = ''esc''")
      case True
      then have "Update L m msg = Inr (m\<lparr>m_quitting := True\<rparr>, True)"
        by (simp add: KeyMsg Let_def)
      then show ?thesis by (rule quit) (use sel in simp_all)
    next
      case c1: False
      show ?thesis
      proof (cases "key = ''enter''")
        case True
        have u: "Update L m msg =
            (if 0 < length (results (m_search m)) \<and>
                selected (m_search m) < int (length (results (m_search m))) then
               (if selected (m_search m) < 0 then Inl IndexOutOfRange
                else Inr (m\<lparr>m_selected :=
                       Some (results (m_search m) ! nat (selected (m_search m)))\<rparr>, True))
             else Inr (m, True))"
          using True by (simp add: KeyMsg Let_def)
        show ?thesis
        proof (cases "results (m_search m) = []")
          case True
          then have "Update L m msg = Inr (m, True)" by (simp add: u)
          then show ?thesis
            by (rule quit) (use True sel nq in \<open>simp_all add: GetSelectedResult_def\<close>)
        next
          case False
          with inv have r: "0 \<le> selected (m_search m)"
            "selected (m_search m) < int (length (results (m_search m)))"
            by (simp_all add: session_inv_def)
          let ?m' = "m\<lparr>m_selected :=
                       Some (results (m_search m) ! nat (selected (m_search m)))\<rparr>"
          from False r have "Update L m msg = Inr (?m', True)" by (simp add: u)
          then show ?thesis
            by (rule quit) (use False r nq in \<open>simp_all add: GetSelectedResult_def\<close>)
        qed
      next
        case c2: False
        show ?thesis
        proof (cases "key = ''up'' \<or> key = ''ctrl+p''")
          case True
          with c1 c2 have "Update L m msg
              = Inr (m\<lparr>m_search := MoveSelection (m_search m) (- 1)\<rparr>, False)"
            by (simp add: KeyMsg Let_def)
          then show ?thesis
            using MoveSelection_inv [OF inv] MoveSelection_render [OF rinv] by (rule stay)
        next
          case c3: False
          show ?thesis
          proof (cases "key = ''down'' \<or> key = ''ctrl+n''")
            case True
            with c1 c2 c3 have "Update L m msg
                = Inr (m\<lparr>m_search := MoveSelection (m_search m) 1\<rparr>, False)"
              by (simp add: KeyMsg Let_def)
            then show ?thesis
              using MoveSelection_inv [OF inv] MoveSelection_render [OF rinv] by (rule stay)
          next
            case c4: False
            show ?thesis
            proof (cases "key = ''backspace''")
              case True
              from RemoveChar_total [OF inv, of L] obtain sr where
                sr: "RemoveChar L (m_search m) = Inr sr" "session_inv sr" by blast
              from True c1 c2 c3 c4 sr(1) have "Update L m msg
                  = Inr (m\<lparr>m_search := sr\<rparr>, False)"
                by (simp add: KeyMsg Let_def)
              then show ?thesis
                using sr(2) RemoveChar_render [OF rinv sr(1)] by (rule stay)
            next
              case c5: False
              show ?thesis
              proof (cases "length key = 1 \<and> 32 \<le> byte (key ! 0)")
                case True
                from inv have e: "0 \<le> maxResults (engine (m_search m))"
                  by (simp add: session_inv_def)
                from AddChar_total [OF e, of L "key ! 0"] obtain sa where
                  sa: "AddChar L (m_search m) (key ! 0) = Inr sa" "session_inv sa" by blast
                from True c1 c2 c3 c4 c5 sa(1) have "Update L m msg
                    = Inr (m\<lparr>m_search := sa\<rparr>, False)"
                  by (simp add: KeyMsg Let_def)
                then show ?thesis
                  using sa(2) AddChar_render [OF rinv sa(1)] by (rule stay)
              next
                case False
                with c1 c2 c3 c4 c5 have "Update L m msg = Inr (m, False)"
                  by (auto simp: KeyMsg Let_def)
                then show ?thesis by (rule same)
              qed
            qed
          qed
        qed
      qed
    qed
  qed
qed

lemma program_loop_inv:
  "model_inv m \<Longrightarrow>
     (\<exists>out. program_loop L m evs = Inr out) \<and>
     (\<forall>final. program_loop L m evs = Inr (Some (Inr final)) \<longrightarrow>
        render_inv (m_search final) \<and> secrets (m_search final) = secrets (m_search m) \<and>
        (m_quitting final \<longrightarrow> m_selected final = None) \<and>
        (\<not> m_quitting final \<longrightarrow> m_selected final = GetSelectedResult (m_search final)))"
proof (induction evs arbitrary: m)
  case Nil
  then show ?case by simp
next
  case (Cons ev evs)
  show ?case
  proof (cases ev)
    case Failure
    then show ?thesis by simp
  next
    case (Message msg)
    from Update_inv [OF Cons.prems, of L msg] obtain m' quit where
      u: "Update L m msg = Inr (m', quit)"
      and si: "session_inv (m_search m')" and ri: "render_inv (m_search m')"
      and sec: "secrets (m_search m') = secrets (m_search m)"
      and cont: "\<not> quit \<longrightarrow> model_inv m'"
      and fin: "quit \<longrightarrow> (m_quitting m' \<longrightarrow> m_selected m' = None) \<and>
                    (\<not> m_quitting m' \<longrightarrow> m_selected m' = GetSelectedResult (m_search m'))"
      by blast
    from View_total [OF si ri, of L] obtain screen where v: "View L m' = Inr screen" by blast
    show ?thesis
    proof (cases quit)
      case True
      with u v fin ri sec Message show ?thesis by simp
    next
      case False
      with cont have "model_inv m'" by simp
      from Cons.IH [OF this] show ?thesis using u v False Message sec by simp
    qed
  qed
qed

lemma NewModel_inv:
  "\<forall>s \<in> set secs. validateKey (Key s) = None \<Longrightarrow> model_inv (NewModel secs)"
  by (simp add: model_inv_def NewModel_def NewInteractiveSearch_inv NewInteractiveSearch_render)

lemma program_Run_inv:
  assumes "\<forall>s \<in> set secs. validateKey (Key s) = None"
  shows "(\<exists>out. program_Run L (NewModel secs) evs = Inr out) \<and>
     (\<forall>final. program_Run L (NewModel secs) evs = Inr (Some (Inr final)) \<longrightarrow>
        render_inv (m_search final) \<and> secrets (m_search final) = secs \<and>
        (m_quitting final \<longrightarrow> m_selected final = None) \<and>
        (\<not> m_quitting final \<longrightarrow> m_selected final = GetSelectedResult (m_search final)))"
proof -
  note inv = NewModel_inv [OF assms]
  then have "session_inv (m_search (NewModel secs))" "render_inv (m_search (NewModel secs))"
    by (simp_all add: model_inv_def)
  from View_total [OF this, of L] obtain screen where
    v: "View L (NewModel secs) = Inr screen" by blast
  have "secrets (m_search (NewModel secs)) = secs"
    by (simp add: NewModel_def NewInteractiveSearch_def)
  with program_loop_inv [OF inv, of L evs] show ?thesis
    by (simp add: program_Run_def v)
qed

lemma run_result_cases:
  "map_sum id (map_option (map_sum id f)) x = Inr (Some (Inr v)) \<Longrightarrow>
     \<exists>m. x = Inr (Some (Inr m)) \<and> f m = v"
  by (cases x; simp; cases "projr x"; simp; cases "the (projr x)"; simp)

text \<open>
  Claim C5: at the end of every run of the session the two outcomes are told apart:
  ending with a selected result yields the label of that result, and cancelling, or
  ending with nothing selected, yields the no-selection signal, which is not the label of
  a candidate. The candidates of a session are the keys of the vault, which
  \<^verbatim>\<open>validateKey\<close> admitted. For such candidates and every sequence of events no run
  panics, neither in \<^verbatim>\<open>Update\<close> nor in \<^verbatim>\<open>View\<close>. When the program ends with the model
  \<open>final\<close>, \<^verbatim>\<open>RunInteractiveSearch\<close> returns \<^verbatim>\<open>GetSelectedKey\<close> of it and a nil error;
  nothing is selected after a cancellation, and after enter the selected result is the
  one under the cursor, if results are shown; the string returned is empty exactly when
  nothing is selected, and otherwise it is the label of the selected result, non-empty
  and the key of a candidate of the session.
\<close>

theorem RunInteractiveSearch_outcome:
  assumes "\<forall>s \<in> set secs. validateKey (Key s) = None"
  shows "(\<exists>out. RunInteractiveSearch L secs evs = Inr out) \<and>
   (\<forall>final. program_Run L (NewModel secs) evs = Inr (Some (Inr final)) \<longrightarrow>
      RunInteractiveSearch L secs evs = Inr (Some (GetSelectedKey final, False)) \<and>
      (m_quitting final \<longrightarrow> m_selected final = None) \<and>
      (\<not> m_quitting final \<longrightarrow> m_selected final = GetSelectedResult (m_search final)) \<and>
      (GetSelectedKey final = [] \<longleftrightarrow> m_selected final = None) \<and>
      (\<forall>sel. m_selected final = Some sel \<longrightarrow>
         GetSelectedKey final = Key (Result sel) \<and> Key (Result sel) \<noteq> [] \<and>
         Result sel \<in> set secs))"
proof -
  note inv = program_Run_inv [OF assms, of L evs]
  from inv obtain out where out: "program_Run L (NewModel secs) evs = Inr out" by blast
  have total: "\<exists>out. RunInteractiveSearch L secs evs = Inr out"
    by (simp add: RunInteractiveSearch_def out split: option.splits sum.splits)
  have "RunInteractiveSearch L secs evs = Inr (Some (GetSelectedKey final, False)) \<and>
      (m_quitting final \<longrightarrow> m_selected final = None) \<and>
      (\<not> m_quitting final \<longrightarrow> m_selected final = GetSelectedResult (m_search final)) \<and>
      (GetSelectedKey final = [] \<longleftrightarrow> m_selected final = None) \<and>
      (\<forall>sel. m_selected final = Some sel \<longrightarrow>
         GetSelectedKey final = Key (Result sel) \<and> Key (Result sel) \<noteq> [] \<and>
         Result sel \<in> set secs)"
    if run: "program_Run L (NewModel secs) evs = Inr (Some (Inr final))" for final
  proof -
    from inv run have ri: "render_inv (m_search final)"
      and sec: "secrets (m_search final) = secs"
      and q: "m_quitting final \<longrightarrow> m_selected final = None"
      and nq: "\<not> m_quitting final \<longrightarrow> m_selected final = GetSelectedResult (m_search final)"
      by blast+
    have r: "RunInteractiveSearch L secs evs = Inr (Some (GetSelectedKey final, False))"
      by (simp add: RunInteractiveSearch_def run GetSelectedKey_def split: option.splits)
    have picked: "Key (Result sel) \<noteq> [] \<and> Result sel \<in> set secs"
      if s: "m_selected final = Some sel" for sel
    proof -
      from s q nq have "GetSelectedResult (m_search final) = Some sel" by auto
      then have "sel \<in> set (results (m_search final))" by (rule GetSelectedResult_mem)
      with ri sec have m: "Result sel \<in> set secs" by (simp add: render_inv_def)
      with assms have "validateKey (Key (Result sel)) = None" by blast
      from validateKey_ok(1) [OF this] m show ?thesis by simp
    qed
    have key: "GetSelectedKey final = [] \<longleftrightarrow> m_selected final = None"
      using picked by (cases "m_selected final") (simp_all add: GetSelectedKey_def)
    have lab: "\<forall>sel. m_selected final = Some sel \<longrightarrow>
         GetSelectedKey final = Key (Result sel) \<and> Key (Result sel) \<noteq> [] \<and>
         Result sel \<in> set secs"
      using picked by (simp add: GetSelectedKey_def)
    from r q nq key lab show ?thesis by blast
  qed
  with total show ?thesis by blast
qed

theorem RunInteractiveSearch_outcome_witness:
  "validateKey ''ab'' = None \<and> validateKey ''abc'' = None \<and>
   RunInteractiveSearch unicode_ToLower two_keys
      [Message (KeyMsg ''a''), Message (KeyMsg ''down''), Message (KeyMsg ''enter'')]
     = Inr (Some (''abc'', False)) \<and>
   RunInteractiveSearch unicode_ToLower two_keys
      [Message (KeyMsg ''a''), Message (KeyMsg ''esc'')]
     = Inr (Some ([], False))"
proof -
  let ?sel = "[Message (KeyMsg ''a''), Message (KeyMsg ''down''), Message (KeyMsg ''enter'')]"
  let ?esc = "[Message (KeyMsg ''a''), Message (KeyMsg ''esc'')]"
  have keys: "validateKey ''ab'' = None" "validateKey ''abc'' = None"
    by code_simp+
  then have valid: "\<forall>s \<in> set two_keys. validateKey (Key s) = None"
    by (simp add: two_keys_def candidate_def)
  have ev1: "map_sum id (map_option (map_sum id (\<lambda>m. (m_quitting m, GetSelectedKey m))))
      (program_Run unicode_ToLower (NewModel two_keys) ?sel) = Inr (Some (Inr (False, ''abc'')))"
    by code_simp
  have ev2: "map_sum id (map_option (map_sum id (\<lambda>m. (m_quitting m, GetSelectedKey m))))
      (program_Run unicode_ToLower (NewModel two_keys) ?esc) = Inr (Some (Inr (True, [])))"
    by code_simp
  from run_result_cases [OF ev1] obtain f1 where
    f1: "program_Run unicode_ToLower (NewModel two_keys) ?sel = Inr (Some (Inr f1))"
      "GetSelectedKey f1 = ''abc''"
    by blast
  from run_result_cases [OF ev2] obtain f2 where
    f2: "program_Run unicode_ToLower (NewModel two_keys) ?esc = Inr (Some (Inr f2))"
      "m_quitting f2"
    by blast
  from RunInteractiveSearch_outcome [OF valid, of unicode_ToLower ?sel] f1(1)
  have "RunInteractiveSearch unicode_ToLower two_keys ?sel
      = Inr (Some (GetSelectedKey f1, False))"
    by blast
  with f1(2) have r1: "RunInteractiveSearch unicode_ToLower two_keys ?sel
      = Inr (Some (''abc'', False))"
    by simp
  from RunInteractiveSearch_outcome [OF valid, of unicode_ToLower ?esc] f2(1)
  have "RunInteractiveSearch unicode_ToLower two_keys ?esc
      = Inr (Some (GetSelectedKey f2, False))"
    and "m_quitting f2 \<longrightarrow> m_selected f2 = None"
    and "GetSelectedKey f2 = [] \<longleftrightarrow> m_selected f2 = None"
    by blast+
  with f2(2) have r2: "RunInteractiveSearch unicode_ToLower two_keys ?esc
      = Inr (Some ([], False))"
    by simp
  from keys r1 r2 show ?thesis by blast
qed

end
